theory Spec2Isabelle
  imports Complex_Main "HOL-Library.Log_Nat"
begin

section \<open>Double-precision arithmetic\<close>

text \<open>
  The program computes with C++ \<open>double\<close>, IEEE 754 binary64 with the default rounding
  (to nearest, ties to even). A double is modelled by the value it denotes: a rational
  number, one of the two infinities, or NaN. Every operation computes the exact rational
  result and rounds it with \<open>round_double\<close>: 53 significant bits, the quantum \<open>2^-1074\<close>
  below \<open>2^-1022\<close> (subnormal numbers), and an infinity once the rounded magnitude
  reaches \<open>2^1024\<close>. Each operation of the source is rounded on its own: no wider
  intermediate format and no fused multiply-add.

  The sign of a zero is not kept. No operation of the program can tell the two zeros
  apart: the only divisors are the converted integer \<open>total_intervals\<close> (which is \<open>+0\<close>
  when it is zero), \<open>1.0 + x * x\<close> (never zero) and \<open>2.0\<close>, and both accumulators start
  from \<open>+0.0\<close>.
\<close>

datatype double = Finite rat | PlusInf | MinusInf | NaN

definition round_half_even :: "rat \<Rightarrow> int" where
  "round_half_even x =
     (let n = \<lfloor>x\<rfloor>; r = x - of_int n
      in if r < 1 / 2 then n else if 1 / 2 < r then n + 1 else if even n then n else n + 1)"

definition expo :: "rat \<Rightarrow> int" where
  \<comment> \<open>the binary exponent \<open>e\<close> of a non-zero rational: \<open>2^e \<le> |q| < 2^(e+1)\<close>\<close>
  "expo q =
     (let (a, b) = quotient_of \<bar>q\<bar>; d = bitlen a - bitlen b
      in if 2 powi d \<le> \<bar>q\<bar> then d else d - 1)"

definition overflow_threshold :: rat where
  "overflow_threshold = 2 powi 1024"

definition round_double :: "rat \<Rightarrow> double" where
  "round_double q =
     (if q = 0 then Finite 0
      else let e = max (expo q) (- 1022);
               ulp = 2 powi (e - 52);
               r = of_int (round_half_even (q / ulp)) * ulp
           in if overflow_threshold \<le> \<bar>r\<bar> then (if 0 < q then PlusInf else MinusInf)
              else Finite r)"

fun fneg :: "double \<Rightarrow> double" where
  "fneg (Finite a) = Finite (- a)"
| "fneg PlusInf = MinusInf"
| "fneg MinusInf = PlusInf"
| "fneg NaN = NaN"

fun fadd :: "double \<Rightarrow> double \<Rightarrow> double" where
  "fadd (Finite a) (Finite b) = round_double (a + b)"
| "fadd NaN y = NaN"
| "fadd x NaN = NaN"
| "fadd PlusInf MinusInf = NaN"
| "fadd MinusInf PlusInf = NaN"
| "fadd PlusInf y = PlusInf"
| "fadd MinusInf y = MinusInf"
| "fadd (Finite a) y = y"

fun fmul :: "double \<Rightarrow> double \<Rightarrow> double" where
  "fmul (Finite a) (Finite b) = round_double (a * b)"
| "fmul NaN y = NaN"
| "fmul x NaN = NaN"
| "fmul (Finite a) y = (if a = 0 then NaN else if 0 < a then y else fneg y)"
| "fmul x (Finite b) = (if b = 0 then NaN else if 0 < b then x else fneg x)"
| "fmul PlusInf y = y"
| "fmul MinusInf y = fneg y"

fun fdiv :: "double \<Rightarrow> double \<Rightarrow> double" where
  "fdiv (Finite a) (Finite b) =
     (if b = 0 then (if a = 0 then NaN else if 0 < a then PlusInf else MinusInf)
      else round_double (a / b))"
| "fdiv NaN y = NaN"
| "fdiv x NaN = NaN"
| "fdiv (Finite a) y = Finite 0"
| "fdiv x (Finite b) = (if 0 \<le> b then x else fneg x)"
| "fdiv x y = NaN"

definition double_of_int :: "int \<Rightarrow> double" where
  \<comment> \<open>conversion of a 32-bit \<open>int\<close>, exact because \<open>|i| \<le> 2^31 < 2^53\<close>\<close>
  "double_of_int i = Finite (of_int i)"

definition is_double :: "double \<Rightarrow> bool" where
  \<comment> \<open>the values of the datatype that are binary64 numbers\<close>
  "is_double x =
     (case x of
        Finite q \<Rightarrow>
          q = 0 \<or> (\<bar>q\<bar> < overflow_threshold \<and>
                   of_int \<lfloor>q / 2 powi (max (expo q) (- 1022) - 52)\<rfloor>
                     = q / 2 powi (max (expo q) (- 1022) - 52))
      | _ \<Rightarrow> True)"

fun value_of :: "double \<Rightarrow> rat" where
  "value_of (Finite q) = q"
| "value_of x = 0"

section \<open>The integrand and the integrator\<close>

text \<open>\<open>double f(double x) { return 4.0 / (1.0 + x * x); }\<close>\<close>

definition f :: "double \<Rightarrow> double" where
  "f x = fdiv (Finite 4) (fadd (Finite 1) (fmul x x))"

text \<open>
  The loop of \<open>integrate\<close>: \<open>for (int i = start; i < end; ++i)\<close> with the accumulator
  \<open>sum\<close> (here \<open>sum_acc\<close>). The loop variable is a 32-bit \<open>int\<close>; \<open>i + 1\<close> cannot
  overflow in the loop body because \<open>i < end\<close>, so the integers are modelled by \<open>int\<close>.
\<close>

function integrate_loop :: "int \<Rightarrow> int \<Rightarrow> double \<Rightarrow> double \<Rightarrow> double" where
  "integrate_loop i end' step sum_acc =
     (if i < end' then
        let x0 = fmul (double_of_int i) step;
            x1 = fmul (double_of_int (i + 1)) step
        in integrate_loop (i + 1) end' step
             (fadd sum_acc (fdiv (fmul (fadd (f x0) (f x1)) step) (Finite 2)))
      else sum_acc)"
  by pat_completeness auto
termination
  by (relation "measure (\<lambda>(i, end', step, sum_acc). nat (end' - i))") auto

definition integrate :: "int \<Rightarrow> int \<Rightarrow> int \<Rightarrow> double" where
  "integrate start end' total_intervals =
     (let sum_acc = Finite 0;
          step = fdiv (Finite 1) (double_of_int total_intervals)
      in integrate_loop start end' step sum_acc)"

text \<open>The term that one iteration of the loop adds to \<open>sum\<close>.\<close>

definition trapezoid_term :: "double \<Rightarrow> int \<Rightarrow> double" where
  "trapezoid_term step i =
     fdiv (fmul (fadd (f (fmul (double_of_int i) step))
                      (f (fmul (double_of_int (i + 1)) step))) step) (Finite 2)"

text \<open>
  The claimed value of \<open>integrate\<close>, in the words of the specification: with
  \<open>step = 1/total_intervals\<close> and the integrand \<open>4/(1+x\<^sup>2)\<close>, the areas
  \<open>(integrand(i*step) + integrand((i+1)*step)) * step / 2\<close> are added to \<open>0.0\<close> for
  \<open>i = start, start + 1, \<dots>, end - 1\<close> in this order, every operation rounded to
  double precision.
\<close>

definition trapezoid_sum_spec :: "int \<Rightarrow> int \<Rightarrow> int \<Rightarrow> double" where
  "trapezoid_sum_spec start end' total_intervals =
     (let step = fdiv (Finite 1) (double_of_int total_intervals);
          integrand = (\<lambda>x. fdiv (Finite 4) (fadd (Finite 1) (fmul x x)));
          area = (\<lambda>i. fdiv (fmul (fadd (integrand (fmul (double_of_int i) step))
                                        (integrand (fmul (double_of_int (i + 1)) step)))
                                  step) (Finite 2))
      in foldl (\<lambda>s i. fadd s (area i)) (Finite 0) [start..end' - 1])"

section \<open>The parallel coordinator\<close>

text \<open>
  Integer division of C++ truncates towards zero. A zero divisor is a fault and is
  handled where the division is made.
\<close>

definition int_div :: "int \<Rightarrow> int \<Rightarrow> int" where
  "int_div a b = sgn a * sgn b * (\<bar>a\<bar> div \<bar>b\<bar>)"

datatype error = DivisionByZero | LengthError

text \<open>
  The closure run by a worker thread: \<open>[&results, i, start, end, total_intervals]\<close>.
  The four integers are captured by value, \<open>results\<close> by reference.
\<close>

record closure =
  cap_i :: int
  cap_start :: int
  cap_end :: int
  cap_total_intervals :: int

text \<open>\<open>results[i] = integrate(start, end, total_intervals);\<close>\<close>

definition thread_body :: "closure \<Rightarrow> double list \<Rightarrow> double list" where
  "thread_body c results =
     results[nat (cap_i c) := integrate (cap_start c) (cap_end c) (cap_total_intervals c)]"

text \<open>The loop \<open>for (int i = 0; i < num_threads; ++i)\<close> that creates the threads.\<close>

function spawn_loop :: "int \<Rightarrow> int \<Rightarrow> int \<Rightarrow> int \<Rightarrow> closure list \<Rightarrow> closure list" where
  "spawn_loop i num_threads intervals_per_thread total_intervals threads =
     (if i < num_threads then
        let start = i * intervals_per_thread;
            end' = (if i = num_threads - 1 then total_intervals
                    else (i + 1) * intervals_per_thread)
        in spawn_loop (i + 1) num_threads intervals_per_thread total_intervals
             (threads @ [\<lparr>cap_i = i, cap_start = start, cap_end = end',
                          cap_total_intervals = total_intervals\<rparr>])
      else threads)"
  by pat_completeness auto
termination
  by (relation "measure (\<lambda>(i, num_threads, ipt, total, threads). nat (num_threads - i))") auto

text \<open>
  The threads run concurrently. The only shared object is \<open>results\<close>, and each thread
  touches it once, in its final assignment; everything before that is local to the
  thread. An execution is therefore given by the order in which the threads make their
  assignment: a schedule, the list of the positions in \<open>threads\<close> in that order. The
  join loop returns once every thread has finished, so the schedules of a run that
  returns are the complete ones, which name every thread exactly once.
\<close>

fun run_threads :: "nat list \<Rightarrow> closure list \<Rightarrow> double list \<Rightarrow> double list" where
  "run_threads [] threads results = results"
| "run_threads (j # sched) threads results =
     run_threads sched threads
       (if j < length threads then thread_body (threads ! j) results else results)"

definition complete_schedule :: "int \<Rightarrow> nat list \<Rightarrow> bool" where
  "complete_schedule num_threads sched = (sort sched = [0..<nat num_threads])"

text \<open>\<open>for (double result : results) pi += result;\<close>\<close>

fun sum_results :: "double \<Rightarrow> double list \<Rightarrow> double" where
  "sum_results pi' [] = pi'"
| "sum_results pi' (result # results) = sum_results (fadd pi' result) results"

text \<open>
  \<open>calculatePi\<close>. A zero \<open>num_threads\<close> faults in the division, a negative one makes the
  constructor of \<open>results\<close> throw \<open>std::length_error\<close>. The line that \<open>calculatePi\<close>
  prints is \<open>timing_line\<close> below.
\<close>

definition calculatePi :: "nat list \<Rightarrow> int \<Rightarrow> int \<Rightarrow> error + double" where
  "calculatePi sched total_intervals num_threads =
     (if num_threads = 0 then Inl DivisionByZero
      else if num_threads < 0 then Inl LengthError
      else
        let intervals_per_thread = int_div total_intervals num_threads;
            results = replicate (nat num_threads) (Finite 0);
            threads = spawn_loop 0 num_threads intervals_per_thread total_intervals [];
            results = run_threads sched threads results;
            pi' = sum_results (Finite 0) results
        in Inr pi')"

text \<open>
  The same, as a transition system. A pool holds the threads that have been created and
  have not finished, the shared vector \<open>results\<close>, and a log of the assignments made to
  it, each as the pair of the writing thread and the slot it wrote. A thread runs its
  closure once: its step makes the assignment of \<open>thread_body\<close> and takes it out of the pool.
  Creating a thread does not touch \<open>results\<close>, so all threads are put in the pool at the start.
\<close>

record pool =
  unfinished :: "nat list"
  slots :: "double list"
  write_log :: "(nat \<times> nat) list"

inductive thread_step :: "closure list \<Rightarrow> pool \<Rightarrow> pool \<Rightarrow> bool" for threads where
  finish:
    "j \<in> set (unfinished s) \<Longrightarrow> j < length threads \<Longrightarrow>
     thread_step threads s
       \<lparr>unfinished = remove1 j (unfinished s),
        slots = thread_body (threads ! j) (slots s),
        write_log = write_log s @ [(j, nat (cap_i (threads ! j)))]\<rparr>"

code_pred thread_step .

definition worker_threads :: "int \<Rightarrow> int \<Rightarrow> closure list" where
  "worker_threads total_intervals num_threads =
     spawn_loop 0 num_threads (int_div total_intervals num_threads) total_intervals []"

definition initial_pool :: "int \<Rightarrow> pool" where
  "initial_pool num_threads =
     \<lparr>unfinished = [0..<nat num_threads],
      slots = replicate (nat num_threads) (Finite 0),
      write_log = []\<rparr>"

text \<open>
  The runs of \<open>calculatePi\<close>: the threads take their steps in any order; the loop of
  \<open>t.join()\<close> returns when no thread is left unfinished, and only then is \<open>results\<close> added
  up and the sum returned.
\<close>

inductive calculatePi_returns :: "int \<Rightarrow> int \<Rightarrow> error + double \<Rightarrow> bool" where
  division_fault:
    "calculatePi_returns total_intervals 0 (Inl DivisionByZero)"
| length_error:
    "num_threads < 0 \<Longrightarrow> calculatePi_returns total_intervals num_threads (Inl LengthError)"
| joined:
    "0 < num_threads \<Longrightarrow>
     rtranclp (thread_step (worker_threads total_intervals num_threads))
       (initial_pool num_threads) s \<Longrightarrow>
     unfinished s = [] \<Longrightarrow>
     calculatePi_returns total_intervals num_threads (Inr (sum_results (Finite 0) (slots s)))"

section \<open>Output and the main program\<close>

text \<open>The decimal digits of a non-negative integer.\<close>

function show_digits :: "int \<Rightarrow> string" where
  "show_digits n = (if n < 10 then [char_of (48 + n)]
                    else show_digits (n div 10) @ [char_of (48 + n mod 10)])"
  by pat_completeness auto
termination
  by (relation "measure nat") auto

definition show_int :: "int \<Rightarrow> string" where
  "show_int i = (if i < 0 then ''-'' @ show_digits (- i) else show_digits i)"

text \<open>
  \<open>std::fixed << std::setprecision(p)\<close>: the exact value rounded to \<open>p\<close> decimals,
  ties to even. The texts for the infinities and NaN are those of the common
  implementations.
\<close>

definition show_fixed :: "nat \<Rightarrow> double \<Rightarrow> string" where
  "show_fixed p x =
     (case x of
        Finite q \<Rightarrow>
          (let m = round_half_even (\<bar>q\<bar> * 10 ^ p);
               d = show_digits (m mod 10 ^ p)
           in (if q < 0 then ''-'' else []) @ show_digits (m div 10 ^ p)
              @ (if p = 0 then [] else ''.'' @ replicate (p - length d) (CHR ''0'') @ d))
      | PlusInf \<Rightarrow> ''inf''
      | MinusInf \<Rightarrow> ''-inf''
      | NaN \<Rightarrow> ''nan'')"

definition timing_line :: "int \<Rightarrow> double \<Rightarrow> string" where
  \<comment> \<open>\<open>elapsed\<close> is the measured \<open>duration.count()\<close>\<close>
  "timing_line num_threads elapsed =
     ''Czas obliczen z '' @ show_int num_threads @ '' watkami: ''
       @ show_fixed 6 elapsed @ '' sekund.'' @ [CHR 0x0A]"

datatype exit_status = Exit int | Terminated error

record run =
  stdout :: string
  stderr :: string
  status :: exit_status

text \<open>
  \<open>main\<close>, as a function of the integer that \<open>std::cin >> num_threads\<close> stores, of the
  schedule of the threads and of the measured time.
\<close>

definition main :: "nat list \<Rightarrow> double \<Rightarrow> int \<Rightarrow> run" where
  "main sched elapsed num_threads =
     (let total_intervals = 100000000;
          prompt = ''Podaj liczbe watkow (1-50): ''
      in if num_threads < 1 \<or> num_threads > 50 then
           \<lparr>stdout = prompt,
            stderr = ''Liczba watkow musi byc w przedziale 1-50.'' @ [CHR 0x0A],
            status = Exit 1\<rparr>
         else
           (case calculatePi sched total_intervals num_threads of
              Inl e \<Rightarrow> \<lparr>stdout = prompt, stderr = [], status = Terminated e\<rparr>
            | Inr pi' \<Rightarrow>
                \<lparr>stdout = prompt @ timing_line num_threads elapsed
                    @ ''Przyblizona wartosc PI wynosi: '' @ show_fixed 8 pi' @ [CHR 0x0A],
                 stderr = [],
                 status = Exit 0\<rparr>))"

section \<open>Notions of the specification\<close>

text \<open>The chunks \<open>[start, end)\<close> handed to the workers, in worker order.\<close>

definition chunks :: "int \<Rightarrow> int \<Rightarrow> (int \<times> int) list" where
  "chunks total_intervals num_threads =
     map (\<lambda>c. (cap_start c, cap_end c))
       (spawn_loop 0 num_threads (int_div total_intervals num_threads) total_intervals [])"

text \<open>
  A list of half-open ranges is contiguous from \<open>a\<close> to \<open>b\<close>: the first starts at \<open>a\<close>,
  each starts where the one before ends, none has a negative length, the last ends at \<open>b\<close>.
\<close>

fun contiguous_from :: "int \<Rightarrow> (int \<times> int) list \<Rightarrow> int \<Rightarrow> bool" where
  "contiguous_from a [] b = (a = b)"
| "contiguous_from a ((s, e) # cs) b = (s = a \<and> s \<le> e \<and> contiguous_from e cs b)"

text \<open>The partial result of worker \<open>i\<close>, in the words of the specification.\<close>

definition worker_partial :: "int \<Rightarrow> int \<Rightarrow> nat \<Rightarrow> double" where
  "worker_partial total_intervals num_threads i =
     integrate (int i * int_div total_intervals num_threads)
       (if int i = num_threads - 1 then total_intervals
        else (int i + 1) * int_div total_intervals num_threads)
       total_intervals"

text \<open>
  The exact value of the term that the loop of \<open>integrate\<close> adds for index \<open>i\<close>; it
  depends on \<open>total_intervals\<close> and \<open>i\<close> only.
\<close>

definition term_value :: "int \<Rightarrow> int \<Rightarrow> rat" where
  "term_value total_intervals i =
     value_of (trapezoid_term (fdiv (Finite 1) (double_of_int total_intervals)) i)"

fun is_finite :: "double \<Rightarrow> bool" where
  "is_finite (Finite q) = True"
| "is_finite x = False"

section \<open>Rounding\<close>

lemma round_double_zero [simp]: "round_double 0 = Finite 0"
  by (simp add: round_double_def)

lemma round_half_even_of_int: "round_half_even (of_int n) = n"
  by (simp add: round_half_even_def)

lemma round_half_even_error: "\<bar>of_int (round_half_even x) - x\<bar> \<le> 1 / 2"
proof -
  define n where "n = \<lfloor>x\<rfloor>"
  have "of_int n \<le> x" "x < of_int n + 1"
    using floor_correct [of x] by (simp_all add: n_def)
  then show ?thesis
    by (auto simp: round_half_even_def Let_def n_def [symmetric])
qed

lemma round_half_even_unique:
  assumes "\<bar>x - of_int m\<bar> < 1 / 2"
  shows "round_half_even x = m"
proof (cases "of_int m \<le> x")
  case True
  with assms have "\<lfloor>x\<rfloor> = m"
    by (intro floor_unique) auto
  with assms True show ?thesis
    by (auto simp: round_half_even_def Let_def)
next
  case False
  with assms have "\<lfloor>x\<rfloor> = m - 1"
    by (intro floor_unique) auto
  with assms False show ?thesis
    by (auto simp: round_half_even_def Let_def)
qed

lemma round_half_even_le: "x \<le> of_int N \<Longrightarrow> round_half_even x \<le> N"
proof -
  assume a: "x \<le> of_int N"
  then have n: "\<lfloor>x\<rfloor> \<le> N"
    by (simp add: floor_le_iff) 
  show ?thesis
  proof (cases "x = of_int N")
    case True
    then show ?thesis by (simp add: round_half_even_of_int)
  next
    case False
    with a have "x < of_int N" by simp
    then have "\<lfloor>x\<rfloor> < N"
      by (simp add: floor_less_iff)
    then show ?thesis
      by (auto simp: round_half_even_def Let_def)
  qed
qed

lemma round_half_even_ge: "of_int N \<le> x \<Longrightarrow> N \<le> round_half_even x"
proof -
  assume "of_int N \<le> x"
  then have "N \<le> \<lfloor>x\<rfloor>"
    by (simp add: le_floor_iff)
  then show ?thesis
    by (auto simp: round_half_even_def Let_def)
qed

lemma pow2_less_imp_less: "(2::rat) powi a < 2 powi b \<Longrightarrow> a < b"
  using power_int_increasing [of b a "2::rat"] by (cases "a < b") auto

lemma expo_bounds:
  assumes "q \<noteq> 0"
  shows "2 powi expo q \<le> \<bar>q\<bar>" and "\<bar>q\<bar> < 2 powi (expo q + 1)"
proof -
  obtain a b where ab: "quotient_of \<bar>q\<bar> = (a, b)"
    by (cases "quotient_of \<bar>q\<bar>")
  then have b: "0 < b" and q: "\<bar>q\<bar> = of_int a / of_int b"
    by (auto dest: quotient_of_denom_pos quotient_of_div)
  have "0 < \<bar>q\<bar>"
    using assms by simp
  then have "0 < (of_int a :: rat) / of_int b"
    by (simp only: q)
  with b have a: "0 < a"
    by (simp add: zero_less_divide_iff)
  define d where "d = bitlen a - bitlen b"
  have la: "1 \<le> bitlen a" and lb: "1 \<le> bitlen b"
    using a b bitlen_eq_zero_iff [of a] bitlen_eq_zero_iff [of b] bitlen_nonneg [of a] bitlen_nonneg [of b]
    by linarith+
  have "(2::int) ^ nat (bitlen a - 1) \<le> a" "a < 2 ^ nat (bitlen a)"
    using bitlen_bounds [OF a] by auto
  then have "(of_int ((2::int) ^ nat (bitlen a - 1)) :: rat) \<le> of_int a" "(of_int a :: rat) < of_int (2 ^ nat (bitlen a))"
    by (simp_all only: of_int_le_iff of_int_less_iff)
  then have A: "2 powi (bitlen a - 1) \<le> (of_int a :: rat)" "(of_int a :: rat) < 2 powi bitlen a"
    using la by (simp_all add: power_int_def)
  have "(2::int) ^ nat (bitlen b - 1) \<le> b" "b < 2 ^ nat (bitlen b)"
    using bitlen_bounds [OF b] by auto
  then have "(of_int ((2::int) ^ nat (bitlen b - 1)) :: rat) \<le> of_int b" "(of_int b :: rat) < of_int (2 ^ nat (bitlen b))"
    by (simp_all only: of_int_le_iff of_int_less_iff)
  then have B: "2 powi (bitlen b - 1) \<le> (of_int b :: rat)" "(of_int b :: rat) < 2 powi bitlen b"
    using lb by (simp_all add: power_int_def)
  have bpos: "(0::rat) < of_int b" using b by simp
  have "\<bar>q\<bar> < 2 powi bitlen a / 2 powi (bitlen b - 1)"
    unfolding q using A B bpos a
    by (intro frac_less) auto
  also have "\<dots> = 2 powi (d + 1)"
    by (simp add: d_def power_int_diff [symmetric] algebra_simps)
  finally have up: "\<bar>q\<bar> < 2 powi (d + 1)" .
  have "2 powi (bitlen a - 1) / 2 powi bitlen b \<le> \<bar>q\<bar>"
    unfolding q using A B bpos a
    by (intro frac_le) auto
  moreover have "2 powi (bitlen a - 1) / 2 powi bitlen b = (2::rat) powi (d - 1)"
    by (simp add: d_def power_int_diff [symmetric] algebra_simps)
  ultimately have lo: "2 powi (d - 1) \<le> \<bar>q\<bar>" by simp
  have e: "expo q = (if 2 powi d \<le> \<bar>q\<bar> then d else d - 1)"
    by (simp add: expo_def ab d_def Let_def)
  show "2 powi expo q \<le> \<bar>q\<bar>"
    using lo by (simp add: e)
  show "\<bar>q\<bar> < 2 powi (expo q + 1)"
    using up by (auto simp: e not_le)
qed

lemma pow2_le_abs_nonzero:
  assumes "2 powi e \<le> \<bar>q :: rat\<bar>"
  shows "q \<noteq> 0"
proof
  assume "q = 0"
  with assms have "(2::rat) powi e \<le> 0" by simp
  moreover have "(0::rat) < 2 powi e" by simp
  ultimately show False by linarith
qed

lemma expo_unique:
  assumes "2 powi e \<le> \<bar>q\<bar>" and "\<bar>q\<bar> < 2 powi (e + 1)"
  shows "expo q = e"
proof -
  have "q \<noteq> 0"
    using assms(1) by (rule pow2_le_abs_nonzero)
  from expo_bounds [OF this] assms
  have "(2::rat) powi expo q < 2 powi (e + 1)" "(2::rat) powi e < 2 powi (expo q + 1)"
    by linarith+
  then have "expo q < e + 1" "e < expo q + 1"
    by (auto dest: pow2_less_imp_less)
  then show ?thesis by simp
qed

lemma expo_less:
  assumes "q \<noteq> 0" and "\<bar>q\<bar> < 2 powi m"
  shows "expo q < m"
  using expo_bounds(1) [OF assms(1)] assms(2) pow2_less_imp_less [of "expo q" m] by linarith

lemma round_double_nonzero:
  "q \<noteq> 0 \<Longrightarrow> round_double q =
     (if overflow_threshold \<le> \<bar>of_int (round_half_even (q / 2 powi (max (expo q) (- 1022) - 52)))
            * 2 powi (max (expo q) (- 1022) - 52)\<bar>
      then (if 0 < q then PlusInf else MinusInf)
      else Finite (of_int (round_half_even (q / 2 powi (max (expo q) (- 1022) - 52)))
            * 2 powi (max (expo q) (- 1022) - 52)))"
  by (simp add: round_double_def Let_def)

lemma scaled_round_error:
  fixes q u :: rat
  assumes "0 < u"
  shows "\<bar>of_int (round_half_even (q / u)) * u - q\<bar> \<le> u / 2"
proof -
  have "of_int (round_half_even (q / u)) * u - q = (of_int (round_half_even (q / u)) - q / u) * u"
    using assms by (simp add: left_diff_distrib)
  then have "\<bar>of_int (round_half_even (q / u)) * u - q\<bar> = \<bar>of_int (round_half_even (q / u)) - q / u\<bar> * u"
    using assms by (simp add: abs_mult)
  also have "\<dots> \<le> 1 / 2 * u"
    using assms round_half_even_error [of "q / u"] by (intro mult_right_mono) auto
  finally show ?thesis by simp
qed

lemma round_double_error:
  assumes "\<bar>q\<bar> < 2 powi m" and "- 1021 \<le> m" and "m \<le> 1023"
  shows "\<exists>r. round_double q = Finite r \<and> \<bar>r - q\<bar> \<le> 2 powi (m - 54)
           \<and> (0 \<le> q \<longrightarrow> 0 \<le> r) \<and> (q \<le> 0 \<longrightarrow> r \<le> 0)"
proof (cases "q = 0")
  case True
  then show ?thesis by (simp add: round_double_def)
next
  case False
  define e where "e = max (expo q) (- 1022)"
  define u :: rat where "u = 2 powi (e - 52)"
  define r where "r = of_int (round_half_even (q / u)) * u"
  have upos: "0 < u" by (simp add: u_def)
  have "expo q < m" using False assms(1) by (rule expo_less)
  with assms(2) have "e - 52 \<le> m - 53" by (simp add: e_def)
  then have "u \<le> 2 powi (m - 53)"
    unfolding u_def by (intro power_int_increasing) auto
  also have "(2::rat) powi (m - 53) = 2 * 2 powi (m - 54)"
    using power_int_add [of "2::rat" 1 "m - 54"] by simp
  finally have u2: "u / 2 \<le> 2 powi (m - 54)" by simp
  have err: "\<bar>r - q\<bar> \<le> u / 2"
    unfolding r_def using upos by (rule scaled_round_error)
  with u2 have err': "\<bar>r - q\<bar> \<le> 2 powi (m - 54)" by simp
  have "(2::rat) powi m \<le> 2 powi 1023" "(2::rat) powi (m - 54) \<le> 2 powi 1023"
    using assms(3) by (intro power_int_increasing; simp)+
  moreover have "(2::rat) powi 1024 = 2 powi 1023 + 2 powi 1023"
    using power_int_add [of "2::rat" 1 1023] by simp
  ultimately have fin: "\<bar>r\<bar> < overflow_threshold"
    unfolding overflow_threshold_def using err' assms(1) by linarith
  have pos: "0 \<le> r" if "0 \<le> q"
  proof -
    from that upos have "of_int 0 \<le> q / u" by simp
    then have "0 \<le> round_half_even (q / u)" by (rule round_half_even_ge)
    with upos show ?thesis by (simp add: r_def)
  qed
  have neg: "r \<le> 0" if "q \<le> 0"
  proof -
    from that upos have "q / u \<le> of_int 0" by (simp add: divide_le_0_iff)
    then have "round_half_even (q / u) \<le> 0" by (rule round_half_even_le)
    with upos show ?thesis by (simp add: r_def mult_le_0_iff)
  qed
  have "round_double q = Finite r"
    using False fin by (simp add: round_double_nonzero r_def u_def e_def)
  with err' pos neg show ?thesis by simp
qed

lemma round_double_cert:
  assumes "2 powi e \<le> \<bar>q\<bar>" and "\<bar>q\<bar> < 2 * 2 powi e" and "- 1022 \<le> e" and "e \<le> 1022"
    and "u = 2 powi (e - 52)" and "\<bar>q / u - of_int k\<bar> < 1 / 2"
  shows "round_double q = Finite (of_int k * u)"
proof -
  have p: "(2::rat) * 2 powi e = 2 powi (e + 1)"
    using power_int_add [of "2::rat" 1 e] by (simp add: add.commute)
  from assms(1,2) have e: "expo q = e"
    unfolding p by (rule expo_unique)
  have nz: "q \<noteq> 0"
    using assms(1) by (rule pow2_le_abs_nonzero)
  have k: "round_half_even (q / u) = k"
    using assms(6) by (rule round_half_even_unique)
  have upos: "0 < u" by (simp add: assms(5))
  have "\<bar>of_int k * u - q\<bar> \<le> u / 2"
    using scaled_round_error [OF upos, of q] by (simp add: k)
  moreover have "u \<le> 2 powi 1022"
    unfolding assms(5) using assms(4) by (intro power_int_increasing) auto
  moreover have "(2::rat) * 2 powi e \<le> 2 * 2 powi 1022"
    using assms(4) power_int_increasing [of e 1022 "2::rat"] by simp
  moreover have "(2::rat) powi 1024 = 2 * 2 powi 1022 + 2 * 2 powi 1022"
    using power_int_add [of "2::rat" 2 1022] by simp
  ultimately have "\<bar>of_int k * u\<bar> < overflow_threshold"
    unfolding overflow_threshold_def using assms(2) upos by linarith
  then show ?thesis
    using nz assms(3) by (simp add: round_double_nonzero e k assms(5) [symmetric] max_def)
qed

lemma round_half_even_tie:
  assumes "x = of_int n + 1 / 2"
  shows "round_half_even x = (if even n then n else n + 1)"
proof -
  have "\<lfloor>x\<rfloor> = n"
    unfolding assms by (intro floor_unique) auto
  then show ?thesis
    by (simp add: round_half_even_def Let_def assms)
qed

lemma round_double_cert_tie:
  assumes "2 powi e \<le> \<bar>q\<bar>" and "\<bar>q\<bar> < 2 * 2 powi e" and "- 1022 \<le> e" and "e \<le> 1022"
    and "u = 2 powi (e - 52)" and "q / u = of_int n + 1 / 2"
    and "k = (if even n then n else n + 1)"
  shows "round_double q = Finite (of_int k * u)"
proof -
  have p: "(2::rat) * 2 powi e = 2 powi (e + 1)"
    using power_int_add [of "2::rat" 1 e] by (simp add: add.commute)
  from assms(1,2) have e: "expo q = e"
    unfolding p by (rule expo_unique)
  have nz: "q \<noteq> 0"
    using assms(1) by (rule pow2_le_abs_nonzero)
  have k: "round_half_even (q / u) = k"
    using round_half_even_tie [OF assms(6)] by (simp add: assms(7))
  have upos: "0 < u" by (simp add: assms(5))
  have "\<bar>of_int k * u - q\<bar> \<le> u / 2"
    using scaled_round_error [OF upos, of q] by (simp add: k)
  moreover have "u \<le> 2 powi 1022"
    unfolding assms(5) using assms(4) by (intro power_int_increasing) auto
  moreover have "(2::rat) * 2 powi e \<le> 2 * 2 powi 1022"
    using assms(4) power_int_increasing [of e 1022 "2::rat"] by simp
  moreover have "(2::rat) powi 1024 = 2 * 2 powi 1022 + 2 * 2 powi 1022"
    using power_int_add [of "2::rat" 2 1022] by simp
  ultimately have "\<bar>of_int k * u\<bar> < overflow_threshold"
    unfolding overflow_threshold_def using assms(2) upos by linarith
  then show ?thesis
    using nz assms(3) by (simp add: round_double_nonzero e k assms(5) [symmetric] max_def)
qed

section \<open>Properties of the integrator\<close>

declare integrate_loop.simps [simp del]

lemma integrate_loop_foldl:
  "integrate_loop i end' step sum_acc =
     foldl (\<lambda>s i. fadd s (trapezoid_term step i)) sum_acc [i..end' - 1]"
proof (induction i end' step sum_acc rule: integrate_loop.induct)
  case (1 i end' step sum_acc)
  show ?case
  proof (cases "i < end'")
    case True
    then have "[i..end' - 1] = i # [i + 1..end' - 1]"
      by (simp add: upto_rec1)
    with True "1.IH" show ?thesis
      by (subst integrate_loop.simps) (simp add: Let_def trapezoid_term_def)
  next
    case False
    then show ?thesis
      by (subst integrate_loop.simps) simp
  qed
qed

lemma integrate_loop_empty: "end' \<le> i \<Longrightarrow> integrate_loop i end' step sum_acc = sum_acc"
  by (subst integrate_loop.simps) simp

text \<open>
  C1: for \<open>0 \<le> start \<le> end \<le> total_intervals\<close> and \<open>total_intervals > 0\<close>,
  \<open>integrate\<close> returns the sum, accumulated from \<open>0.0\<close> in increasing order of \<open>i\<close> over
  \<open>[start, end)\<close>, of \<open>(f(i*step) + f((i+1)*step)) * step / 2\<close> with
  \<open>step = 1/total_intervals\<close>, every operation in double precision.
\<close>

theorem integrate_is_trapezoid_sum:
  assumes "0 \<le> start" and "start \<le> end'" and "end' \<le> total_intervals"
    and "0 < total_intervals"
  shows "integrate start end' total_intervals = trapezoid_sum_spec start end' total_intervals"
  by (simp add: integrate_def trapezoid_sum_spec_def integrate_loop_foldl trapezoid_term_def
      f_def)

section \<open>The partition into chunks\<close>

declare spawn_loop.simps [simp del] show_digits.simps [simp del]

lemma int_div_nonneg: "0 \<le> a \<Longrightarrow> 0 < b \<Longrightarrow> int_div a b = a div b"
  by (cases "a = 0") (simp_all add: int_div_def)

lemma spawn_loop_eq:
  "spawn_loop i n ipt tot threads =
     threads @ map (\<lambda>j. \<lparr>cap_i = j, cap_start = j * ipt,
                           cap_end = (if j = n - 1 then tot else (j + 1) * ipt),
                           cap_total_intervals = tot\<rparr>) [i..n - 1]"
proof (induction i n ipt tot threads rule: spawn_loop.induct)
  case (1 i n ipt tot threads)
  show ?case
  proof (cases "i < n")
    case True
    then have "[i..n - 1] = i # [i + 1..n - 1]"
      by (simp add: upto_rec1)
    with True "1.IH" show ?thesis
      by (subst spawn_loop.simps) (simp add: Let_def)
  next
    case False
    then show ?thesis
      by (subst spawn_loop.simps) simp
  qed
qed

lemma threads_length: "length (spawn_loop 0 n ipt tot []) = nat n"
  by (simp add: spawn_loop_eq)

lemma threads_nth:
  assumes "j < nat n"
  shows "spawn_loop 0 n ipt tot [] ! j =
           \<lparr>cap_i = int j, cap_start = int j * ipt,
            cap_end = (if int j = n - 1 then tot else (int j + 1) * ipt),
            cap_total_intervals = tot\<rparr>"
proof -
  from assms have "j < length [0..n - 1]" "0 + int j \<le> n - 1"
    by simp_all
  then show ?thesis
    by (simp add: spawn_loop_eq nth_upto)
qed

lemma chunks_eq:
  "chunks tot n =
     map (\<lambda>j. (j * int_div tot n, if j = n - 1 then tot else (j + 1) * int_div tot n))
       [0..n - 1]"
  by (simp add: chunks_def spawn_loop_eq comp_def)

lemma contiguous_tail:
  assumes "0 \<le> ipt" and "(n - 1) * ipt \<le> tot"
  shows "i \<le> n - 1 \<Longrightarrow>
         contiguous_from (i * ipt)
           (map (\<lambda>j. (j * ipt, if j = n - 1 then tot else (j + 1) * ipt)) [i..n - 1]) tot"
proof (induction "nat (n - 1 - i)" arbitrary: i)
  case 0
  then have "i = n - 1" by simp
  then have "[i..n - 1] = [n - 1]" by (simp add: upto_rec1)
  with \<open>i = n - 1\<close> assms(2) show ?case by simp
next
  case (Suc k)
  then have lt: "i < n - 1" by simp
  then have l: "[i..n - 1] = i # [i + 1..n - 1]"
    by (simp add: upto_rec1)
  have "k = nat (n - 1 - (i + 1))" using Suc(2) by simp
  moreover have "i + 1 \<le> n - 1" using lt by simp
  ultimately have "contiguous_from ((i + 1) * ipt)
      (map (\<lambda>j. (j * ipt, if j = n - 1 then tot else (j + 1) * ipt)) [i + 1..n - 1]) tot"
    by (rule Suc(1))
  moreover have "i * ipt \<le> (i + 1) * ipt"
    using assms(1) by (simp add: algebra_simps)
  ultimately show ?case
    using lt by (simp add: l)
qed

lemma chunks_contiguous:
  assumes "0 \<le> tot" and "1 \<le> n"
  shows "contiguous_from 0 (chunks tot n) tot"
proof -
  have d: "int_div tot n = tot div n"
    using assms by (simp add: int_div_nonneg)
  have nn: "0 \<le> tot div n"
    using assms by (simp add: pos_imp_zdiv_nonneg_iff)
  have "0 \<le> tot mod n" "tot = n * (tot div n) + tot mod n"
    using assms by simp_all
  then have "n * (tot div n) \<le> tot"
    by linarith
  moreover have "(n - 1) * (tot div n) \<le> n * (tot div n)"
    using nn by (intro mult_right_mono) auto
  ultimately have "(n - 1) * (tot div n) \<le> tot" by simp
  from contiguous_tail [OF nn this, of 0] assms(2) show ?thesis
    unfolding chunks_eq d by simp
qed

lemma contiguous_from_le: "contiguous_from a cs b \<Longrightarrow> a \<le> b"
proof (induction cs arbitrary: a)
  case Nil
  then show ?case by simp
next
  case (Cons c cs)
  obtain s e where c: "c = (s, e)" by (cases c)
  from Cons.prems c have s: "s = a" "s \<le> e" and t: "contiguous_from e cs b"
    by simp_all
  from Cons.IH [OF t] s show ?case by simp
qed

lemma contiguous_from_bounds:
  "contiguous_from a cs b \<Longrightarrow> m < length cs \<Longrightarrow>
     a \<le> fst (cs ! m) \<and> fst (cs ! m) \<le> snd (cs ! m) \<and> snd (cs ! m) \<le> b"
proof (induction cs arbitrary: a m)
  case Nil
  then show ?case by simp
next
  case (Cons c cs)
  obtain s e where c: "c = (s, e)" by (cases c)
  from Cons.prems c have s: "s = a" "s \<le> e" and t: "contiguous_from e cs b"
    by simp_all
  show ?case
  proof (cases m)
    case 0
    with c s contiguous_from_le [OF t] show ?thesis by simp
  next
    case (Suc k)
    with Cons.prems have "k < length cs" by simp
    from Cons.IH [OF t this] s Suc show ?thesis by simp
  qed
qed

lemma contiguous_from_adjacent:
  "contiguous_from a cs b \<Longrightarrow> Suc m < length cs \<Longrightarrow> snd (cs ! m) = fst (cs ! Suc m)"
proof (induction cs arbitrary: a m)
  case Nil
  then show ?case by simp
next
  case (Cons c cs)
  obtain s e where c: "c = (s, e)" by (cases c)
  from Cons.prems c have t: "contiguous_from e cs b"
    by simp
  show ?case
  proof (cases m)
    case 0
    with Cons.prems have "cs \<noteq> []" by auto
    then obtain c' cs' where "cs = c' # cs'" by (cases cs) auto
    with t c 0 show ?thesis by (cases c') simp
  next
    case (Suc k)
    with Cons.prems have "Suc k < length cs" by simp
    from Cons.IH [OF t this] Suc show ?thesis by simp
  qed
qed

lemma contiguous_from_ordered:
  "contiguous_from a cs b \<Longrightarrow> j < k \<Longrightarrow> k < length cs \<Longrightarrow> snd (cs ! j) \<le> fst (cs ! k)"
proof (induction cs arbitrary: a j k)
  case Nil
  then show ?case by simp
next
  case (Cons c cs)
  obtain s e where c: "c = (s, e)" by (cases c)
  from Cons.prems c have t: "contiguous_from e cs b"
    by simp
  from Cons.prems obtain k' where k: "k = Suc k'" "k' < length cs"
    by (cases k) auto
  show ?case
  proof (cases j)
    case 0
    with contiguous_from_bounds [OF t k(2)] c k show ?thesis by simp
  next
    case (Suc j')
    with Cons.prems k have "j' < k'" by simp
    from Cons.IH [OF t this k(2)] Suc k show ?thesis by simp
  qed
qed

lemma contiguous_from_cover:
  "contiguous_from a cs b \<Longrightarrow> (\<Union>(s, e)\<in>set cs. {s..<e}) = {a..<b}"
proof (induction cs arbitrary: a)
  case Nil
  then show ?case by simp
next
  case (Cons c cs)
  obtain s e where c: "c = (s, e)" by (cases c)
  from Cons.prems c have s: "s = a" "s \<le> e" and t: "contiguous_from e cs b"
    by simp_all
  from Cons.IH [OF t] contiguous_from_le [OF t] s show ?case
    by (auto simp: c)
qed

lemma contiguous_from_sizes:
  "contiguous_from a cs b \<Longrightarrow> (\<Sum>(s, e)\<leftarrow>cs. e - s) = b - a"
proof (induction cs arbitrary: a)
  case Nil
  then show ?case by simp
next
  case (Cons c cs)
  obtain s e where c: "c = (s, e)" by (cases c)
  from Cons.prems c have s: "s = a" and t: "contiguous_from e cs b"
    by simp_all
  from Cons.IH [OF t] s show ?case
    by (simp add: c)
qed

lemma chunks_length: "length (chunks tot n) = nat n"
  by (simp add: chunks_def threads_length)

lemma chunks_nth:
  "j < nat n \<Longrightarrow>
     chunks tot n ! j =
       (int j * int_div tot n, if int j = n - 1 then tot else (int j + 1) * int_div tot n)"
  by (simp add: chunks_def threads_length threads_nth)

lemma chunks_small:
  assumes "0 \<le> tot" and "tot < n"
  shows "chunks tot n = replicate (nat n - 1) (0, 0) @ [(0, tot)]"
proof -
  have z: "int_div tot n = 0"
    using assms by (simp add: int_div_nonneg)
  have n: "0 \<le> n - 1" using assms by simp
  have "map (\<lambda>j. (j * (0::int), if j = n - 1 then tot else (j + 1) * 0)) [0..n - 1 - 1]
          = map (\<lambda>j. (0, 0)) [0..n - 1 - 1]"
    by (rule map_cong) auto
  also have "\<dots> = replicate (nat n - 1) (0, 0)"
    using n by (simp add: map_replicate_const nat_diff_distrib)
  finally show ?thesis
    unfolding chunks_eq z upto_rec2 [OF n] by simp
qed

text \<open>
  Every bound that \<open>calculatePi\<close> computes lies between \<open>0\<close> and \<open>total_intervals\<close>, and
  \<open>integrate\<close> increments \<open>i\<close> below \<open>end\<close> only: with 32-bit arguments no \<open>int\<close>
  operation of the program overflows.
\<close>

lemma chunk_bounds_in_range:
  assumes "0 \<le> tot" and "1 \<le> n" and "(s, e) \<in> set (chunks tot n)"
  shows "0 \<le> s \<and> s \<le> e \<and> e \<le> tot"
proof -
  from assms(3) obtain m where "m < length (chunks tot n)" "chunks tot n ! m = (s, e)"
    by (auto simp: in_set_conv_nth)
  with contiguous_from_bounds [OF chunks_contiguous [OF assms(1,2)], of m] show ?thesis
    by simp
qed

text \<open>
  C2: for \<open>total_intervals > 0\<close> and \<open>num_threads\<close> in \<open>[1, total_intervals]\<close>, worker \<open>i\<close>
  gets the chunk from \<open>i * (total_intervals / num_threads)\<close> to \<open>total_intervals\<close> if it is
  the last worker and to \<open>(i+1) * (total_intervals / num_threads)\<close> otherwise; the chunks
  are contiguous, do not overlap, cover \<open>[0, total_intervals)\<close> exactly, and their sizes
  sum to \<open>total_intervals\<close>.
\<close>

theorem chunks_partition:
  assumes "0 < total_intervals" and "1 \<le> num_threads" and "num_threads \<le> total_intervals"
  shows "length (chunks total_intervals num_threads) = nat num_threads
    \<and> (\<forall>i < nat num_threads. chunks total_intervals num_threads ! i =
          (int i * (total_intervals div num_threads),
           if int i = num_threads - 1 then total_intervals
           else (int i + 1) * (total_intervals div num_threads)))
    \<and> contiguous_from 0 (chunks total_intervals num_threads) total_intervals
    \<and> (\<forall>j k. j < k \<and> k < nat num_threads \<longrightarrow>
          {fst (chunks total_intervals num_threads ! j)..<snd (chunks total_intervals num_threads ! j)}
          \<inter> {fst (chunks total_intervals num_threads ! k)..<snd (chunks total_intervals num_threads ! k)}
          = {})
    \<and> (\<Union>(s, e)\<in>set (chunks total_intervals num_threads). {s..<e}) = {0..<total_intervals}
    \<and> (\<Sum>(s, e)\<leftarrow>chunks total_intervals num_threads. e - s) = total_intervals"
proof -
  let ?cs = "chunks total_intervals num_threads"
  have c: "contiguous_from 0 ?cs total_intervals"
    using assms by (intro chunks_contiguous) auto
  have d: "int_div total_intervals num_threads = total_intervals div num_threads"
    using assms by (simp add: int_div_nonneg)
  have len: "length ?cs = nat num_threads"
    by (rule chunks_length)
  have nth: "\<forall>i < nat num_threads. ?cs ! i =
          (int i * (total_intervals div num_threads),
           if int i = num_threads - 1 then total_intervals
           else (int i + 1) * (total_intervals div num_threads))"
    using chunks_nth [of _ num_threads total_intervals] unfolding d by blast
  have dis: "\<forall>j k. j < k \<and> k < nat num_threads \<longrightarrow>
          {fst (?cs ! j)..<snd (?cs ! j)} \<inter> {fst (?cs ! k)..<snd (?cs ! k)} = {}"
  proof (intro allI impI)
    fix j k
    assume "j < k \<and> k < nat num_threads"
    then have "snd (?cs ! j) \<le> fst (?cs ! k)"
      using contiguous_from_ordered [OF c, of j k] by (simp add: chunks_length)
    then show "{fst (?cs ! j)..<snd (?cs ! j)} \<inter> {fst (?cs ! k)..<snd (?cs ! k)} = {}"
      by auto
  qed
  note cov = contiguous_from_cover [OF c] and sz = contiguous_from_sizes [OF c]
  from len nth c dis cov sz show ?thesis
    by simp
qed

theorem chunks_partition_witness:
  "length (chunks 10 3) = 3 \<and> chunks 10 3 ! 2 = (6, 10)
   \<and> contiguous_from 0 (chunks 10 3) 10 \<and> (\<Sum>(s, e)\<leftarrow>chunks 10 3. e - s) = 10"
proof -
  have "0 < (10::int)" "1 \<le> (3::int)" "(3::int) \<le> 10"
    by simp_all
  note t = chunks_partition [OF this]
  from t have len: "length (chunks 10 3) = nat 3"
    by (rule conjunct1)
  from t have "\<forall>i < nat 3. chunks 10 3 ! i =
          (int i * (10 div 3), if int i = 3 - 1 then 10 else (int i + 1) * (10 div 3))"
    by (elim conjE)
  then have "chunks 10 3 ! 2 = (int 2 * (10 div 3), if int 2 = 3 - 1 then 10 else (int 2 + 1) * (10 div 3))"
    by simp
  then have nth: "chunks 10 3 ! 2 = (6, 10)"
    by simp
  from t have c: "contiguous_from 0 (chunks 10 3) 10"
    by (elim conjE)
  from t have sz: "(\<Sum>(s, e)\<leftarrow>chunks 10 3. e - s) = 10"
    by (elim conjE)
  from len nth c sz show ?thesis by simp
qed

text \<open>
  C9: for \<open>total_intervals \<ge> 0\<close> and \<open>num_threads \<ge> 1\<close> every chunk has \<open>start \<le> end\<close> and
  the chunks cover \<open>[0, total_intervals)\<close> exactly, also when
  \<open>total_intervals < num_threads\<close>: then \<open>intervals_per_thread\<close> is \<open>0\<close>, every worker but
  the last gets the empty chunk \<open>[0, 0)\<close> and the last gets \<open>[0, total_intervals)\<close>.
\<close>

theorem chunks_never_negative:
  assumes "0 \<le> total_intervals" and "1 \<le> num_threads"
  shows "(\<forall>(s, e)\<in>set (chunks total_intervals num_threads). s \<le> e)
    \<and> contiguous_from 0 (chunks total_intervals num_threads) total_intervals
    \<and> (\<Union>(s, e)\<in>set (chunks total_intervals num_threads). {s..<e}) = {0..<total_intervals}
    \<and> (total_intervals < num_threads \<longrightarrow>
          int_div total_intervals num_threads = 0
          \<and> chunks total_intervals num_threads
              = replicate (nat num_threads - 1) (0, 0) @ [(0, total_intervals)])"
proof -
  let ?cs = "chunks total_intervals num_threads"
  have c: "contiguous_from 0 ?cs total_intervals"
    using assms by (rule chunks_contiguous)
  have wf: "\<forall>(s, e)\<in>set ?cs. s \<le> e"
  proof (intro ballI)
    fix c' assume "c' \<in> set ?cs"
    then obtain m where "m < length ?cs" "?cs ! m = c'"
      by (auto simp: in_set_conv_nth)
    with contiguous_from_bounds [OF c, of m] show "case c' of (s, e) \<Rightarrow> s \<le> e"
      by (cases c') simp
  qed
  have small: "total_intervals < num_threads \<longrightarrow>
          int_div total_intervals num_threads = 0
          \<and> ?cs = replicate (nat num_threads - 1) (0, 0) @ [(0, total_intervals)]"
    using assms chunks_small [OF assms(1), of num_threads] by (simp add: int_div_nonneg)
  note cov = contiguous_from_cover [OF c]
  from wf c cov small show ?thesis
    by (intro conjI)
qed

theorem chunks_never_negative_witness:
  "contiguous_from 0 (chunks 2 4) 2 \<and> int_div 2 4 = 0
   \<and> chunks 2 4 = [(0, 0), (0, 0), (0, 0), (0, 2)]"
proof -
  have "0 \<le> (2::int)" "1 \<le> (4::int)"
    by simp_all
  note t = chunks_never_negative [OF this]
  from t have c: "contiguous_from 0 (chunks 2 4) 2"
    by (elim conjE)
  from t have "(2::int) < 4 \<longrightarrow> int_div 2 4 = 0
          \<and> chunks 2 4 = replicate (nat 4 - 1) (0, 0) @ [(0, 2)]"
    by (elim conjE)
  then have "int_div 2 4 = 0" "chunks 2 4 = replicate (nat 4 - 1) (0, 0) @ [(0, 2)]"
    by simp_all
  moreover have "replicate (nat 4 - 1) (0::int, 0::int) = [(0, 0), (0, 0), (0, 0)]"
    by (simp add: numeral_eq_Suc)
  ultimately show ?thesis
    using c by simp
qed

section \<open>The coordinator\<close>

lemma sum_results_foldl: "sum_results p rs = foldl fadd p rs"
  by (induction rs arbitrary: p) simp_all

lemma sum_results_append: "sum_results p (rs @ rs') = sum_results (sum_results p rs) rs'"
  by (simp add: sum_results_foldl)

lemma thread_body_length: "length (thread_body c results) = length results"
  by (simp add: thread_body_def)

lemma run_threads_length:
  "length results = length threads \<Longrightarrow> length (run_threads sched threads results) = length threads"
  by (induction sched arbitrary: results) (simp_all add: thread_body_length)

lemma run_threads_nth:
  assumes "\<forall>j < length threads. cap_i (threads ! j) = int j"
    and "length results = length threads" and "j < length threads"
  shows "run_threads sched threads results ! j =
           (if j \<in> set sched
            then integrate (cap_start (threads ! j)) (cap_end (threads ! j))
                   (cap_total_intervals (threads ! j))
            else results ! j)"
  using assms(2)
proof (induction sched arbitrary: results)
  case Nil
  then show ?case by simp
next
  case (Cons k sched)
  let ?r = "if k < length threads then thread_body (threads ! k) results else results"
  have len: "length ?r = length threads"
    using Cons.prems by (simp add: thread_body_length)
  have r: "?r ! j = (if j = k then integrate (cap_start (threads ! j)) (cap_end (threads ! j))
                   (cap_total_intervals (threads ! j)) else results ! j)"
    using assms(1,3) Cons.prems by (auto simp: thread_body_def)
  show ?case
    using Cons.IH [OF len] r by auto
qed

lemma complete_schedule_set:
  assumes "complete_schedule n sched"
  shows "set sched = {0..<nat n}"
proof -
  from assms have "set (sort sched) = set [0..<nat n]"
    by (simp add: complete_schedule_def)
  then show ?thesis by simp
qed

lemma run_threads_complete:
  assumes "complete_schedule n sched"
  shows "run_threads sched (spawn_loop 0 n ipt tot []) (replicate (nat n) (Finite 0)) =
           map (\<lambda>i. integrate (int i * ipt) (if int i = n - 1 then tot else (int i + 1) * ipt) tot)
             [0..<nat n]"
proof (rule nth_equalityI)
  show "length (run_threads sched (spawn_loop 0 n ipt tot []) (replicate (nat n) (Finite 0))) =
          length (map (\<lambda>i. integrate (int i * ipt) (if int i = n - 1 then tot else (int i + 1) * ipt) tot)
             [0..<nat n])"
    by (simp add: run_threads_length threads_length)
next
  fix j
  assume "j < length (run_threads sched (spawn_loop 0 n ipt tot []) (replicate (nat n) (Finite 0)))"
  then have j: "j < nat n"
    by (simp add: run_threads_length threads_length)
  have own: "\<forall>j < length (spawn_loop 0 n ipt tot []). cap_i (spawn_loop 0 n ipt tot [] ! j) = int j"
    by (simp add: threads_length threads_nth)
  have "run_threads sched (spawn_loop 0 n ipt tot []) (replicate (nat n) (Finite 0)) ! j =
          integrate (cap_start (spawn_loop 0 n ipt tot [] ! j)) (cap_end (spawn_loop 0 n ipt tot [] ! j))
                   (cap_total_intervals (spawn_loop 0 n ipt tot [] ! j))"
    using run_threads_nth [OF own, of "replicate (nat n) (Finite 0)" j sched] j
      complete_schedule_set [OF assms]
    by (simp add: threads_length)
  then show "run_threads sched (spawn_loop 0 n ipt tot []) (replicate (nat n) (Finite 0)) ! j =
          map (\<lambda>i. integrate (int i * ipt) (if int i = n - 1 then tot else (int i + 1) * ipt) tot)
             [0..<nat n] ! j"
    using j by (simp add: threads_nth)
qed

lemma calculatePi_complete:
  assumes "1 \<le> n" and "complete_schedule n sched"
  shows "calculatePi sched tot n =
           Inr (foldl fadd (Finite 0) (map (worker_partial tot n) [0..<nat n]))"
proof -
  have "map (\<lambda>i. integrate (int i * int_div tot n)
               (if int i = n - 1 then tot else (int i + 1) * int_div tot n) tot) [0..<nat n]
        = map (worker_partial tot n) [0..<nat n]"
    by (rule map_cong) (simp_all add: worker_partial_def)
  with assms(1) run_threads_complete [OF assms(2), of "int_div tot n" tot] show ?thesis
    by (simp add: calculatePi_def Let_def sum_results_foldl)
qed

text \<open>
  C3: the value returned by \<open>calculatePi\<close> is the sum of the \<open>num_threads\<close> partial results
  of the workers, added to \<open>0.0\<close> in ascending order of the worker index, whatever the
  order in which the threads finished.
\<close>

theorem calculatePi_sums_in_worker_order:
  assumes "0 < total_intervals" and "1 \<le> num_threads" and "num_threads \<le> 50"
    and "complete_schedule num_threads sched"
  shows "calculatePi sched total_intervals num_threads =
           Inr (foldl fadd (Finite 0)
                  (map (worker_partial total_intervals num_threads) [0..<nat num_threads]))"
  using assms(2,4) by (rule calculatePi_complete)

theorem calculatePi_sums_in_worker_order_witness:
  "calculatePi [1, 0] 4 2 =
     Inr (foldl fadd (Finite 0) (map (worker_partial 4 2) [0..<nat 2]))"
proof -
  have "sort [1, 0 :: nat] = [0..<nat 2]"
    by (simp add: numeral_eq_Suc upt_rec)
  then have "complete_schedule 2 [1, 0]"
    by (simp add: complete_schedule_def)
  then show ?thesis
    by (intro calculatePi_sums_in_worker_order) simp_all
qed

lemma run_threads_append:
  "run_threads (sched @ sched') threads results
     = run_threads sched' threads (run_threads sched threads results)"
  by (induction sched arbitrary: results) simp_all

lemma fold_remove1_prefix: "fold remove1 xs (xs @ ys) = ys"
  by (induction xs) simp_all

lemma pool_invariant:
  assumes "rtranclp (thread_step threads) s0 s" and "distinct (unfinished s0)"
  shows "\<exists>sched. distinct sched \<and> distinct (unfinished s)
           \<and> set sched \<inter> set (unfinished s) = {}
           \<and> set sched \<union> set (unfinished s) = set (unfinished s0)
           \<and> (\<forall>j\<in>set sched. j < length threads)
           \<and> slots s = run_threads sched threads (slots s0)
           \<and> write_log s = write_log s0 @ map (\<lambda>j. (j, nat (cap_i (threads ! j)))) sched"
  using assms
proof (induction rule: rtranclp_induct)
  case base
  show ?case
    by (rule exI [of _ "[]"]) (simp add: base)
next
  case (step s s')
  from step.IH [OF step.prems] obtain sched
    where sched: "distinct sched" "distinct (unfinished s)"
      "set sched \<inter> set (unfinished s) = {}"
      "set sched \<union> set (unfinished s) = set (unfinished s0)"
      "\<forall>j\<in>set sched. j < length threads"
      "slots s = run_threads sched threads (slots s0)"
      "write_log s = write_log s0 @ map (\<lambda>j. (j, nat (cap_i (threads ! j)))) sched"
    by blast
  from step.hyps(2) obtain j
    where j: "j \<in> set (unfinished s)" "j < length threads"
      and s': "s' = \<lparr>unfinished = remove1 j (unfinished s),
                      slots = thread_body (threads ! j) (slots s),
                      write_log = write_log s @ [(j, nat (cap_i (threads ! j)))]\<rparr>"
    by (auto elim: thread_step.cases)
  have notin: "j \<notin> set sched"
    using j(1) sched(3) by auto
  have rem: "set (remove1 j (unfinished s)) = set (unfinished s) - {j}"
    using sched(2) by (rule set_remove1_eq)
  show ?case
  proof (intro exI [of _ "sched @ [j]"] conjI)
    show "distinct (sched @ [j])"
      using sched(1) notin by simp
    show "distinct (unfinished s')"
      using sched(2) by (simp add: s')
    show "set (sched @ [j]) \<inter> set (unfinished s') = {}"
      using sched(3) by (auto simp: s' rem)
    show "set (sched @ [j]) \<union> set (unfinished s') = set (unfinished s0)"
      using sched(4) j(1) by (auto simp: s' rem)
    show "\<forall>j\<in>set (sched @ [j]). j < length threads"
      using sched(5) j(2) by simp
    show "slots s' = run_threads (sched @ [j]) threads (slots s0)"
      using j(2) by (simp add: s' run_threads_append sched(6))
    show "write_log s' = write_log s0 @ map (\<lambda>j. (j, nat (cap_i (threads ! j)))) (sched @ [j])"
      by (simp add: s' sched(7))
  qed
qed

lemma pool_reach:
  "distinct sched \<Longrightarrow> set sched \<subseteq> set (unfinished s) \<Longrightarrow> \<forall>j\<in>set sched. j < length threads \<Longrightarrow>
     rtranclp (thread_step threads) s
       \<lparr>unfinished = fold remove1 sched (unfinished s),
        slots = run_threads sched threads (slots s),
        write_log = write_log s @ map (\<lambda>j. (j, nat (cap_i (threads ! j)))) sched\<rparr>"
proof (induction sched arbitrary: s)
  case Nil
  show ?case by (cases s) simp
next
  case (Cons j sched)
  let ?s1 = "\<lparr>unfinished = remove1 j (unfinished s),
              slots = thread_body (threads ! j) (slots s),
              write_log = write_log s @ [(j, nat (cap_i (threads ! j)))]\<rparr>"
  have j: "j \<in> set (unfinished s)" "j < length threads" "j \<notin> set sched"
    using Cons.prems by simp_all
  then have first: "thread_step threads s ?s1"
    by (intro thread_step.finish)
  have "set sched \<subseteq> set (unfinished ?s1)"
  proof
    fix x assume x: "x \<in> set sched"
    with j(3) have "x \<noteq> j" by auto
    moreover from x Cons.prems(2) have "x \<in> set (unfinished s)" by auto
    ultimately show "x \<in> set (unfinished ?s1)" by simp
  qed
  moreover have "distinct sched" "\<forall>j\<in>set sched. j < length threads"
    using Cons.prems by simp_all
  ultimately have "rtranclp (thread_step threads) ?s1
       \<lparr>unfinished = fold remove1 sched (unfinished ?s1),
        slots = run_threads sched threads (slots ?s1),
        write_log = write_log ?s1 @ map (\<lambda>j. (j, nat (cap_i (threads ! j)))) sched\<rparr>"
    by (intro Cons.IH)
  with first have "rtranclp (thread_step threads) s
       \<lparr>unfinished = fold remove1 sched (unfinished ?s1),
        slots = run_threads sched threads (slots ?s1),
        write_log = write_log ?s1 @ map (\<lambda>j. (j, nat (cap_i (threads ! j)))) sched\<rparr>"
    by (rule converse_rtranclp_into_rtranclp)
  then show ?case
    using j(2) by simp
qed

lemma distinct_range_complete:
  assumes "distinct sched" and "set sched = {0..<nat n}"
  shows "complete_schedule n sched"
proof -
  have "sort sched = sort (remdups sched)"
    using assms(1) by (simp add: distinct_remdups_id)
  also have "\<dots> = sorted_list_of_set (set sched)"
    by (simp add: sorted_list_of_set_sort_remdups)
  finally show ?thesis
    by (simp add: complete_schedule_def assms(2))
qed

lemma run_threads_worker_partials:
  assumes "complete_schedule n sched"
  shows "run_threads sched (worker_threads tot n) (replicate (nat n) (Finite 0))
           = map (worker_partial tot n) [0..<nat n]"
proof -
  have "map (\<lambda>i. integrate (int i * int_div tot n)
               (if int i = n - 1 then tot else (int i + 1) * int_div tot n) tot) [0..<nat n]
        = map (worker_partial tot n) [0..<nat n]"
    by (rule map_cong) (simp_all add: worker_partial_def)
  with run_threads_complete [OF assms, of "int_div tot n" tot] show ?thesis
    by (simp add: worker_threads_def)
qed

lemma pool_log:
  assumes "rtranclp (thread_step (worker_threads tot n)) (initial_pool n) s"
  obtains sched where "write_log s = map (\<lambda>j. (j, j)) sched" and "distinct sched"
    and "set sched \<union> set (unfinished s) = {0..<nat n}"
    and "set sched \<inter> set (unfinished s) = {}"
    and "slots s = run_threads sched (worker_threads tot n) (replicate (nat n) (Finite 0))"
proof -
  have "distinct (unfinished (initial_pool n))"
    by (simp add: initial_pool_def)
  from pool_invariant [OF assms this] obtain sched
    where sched: "distinct sched" "set sched \<inter> set (unfinished s) = {}"
      "set sched \<union> set (unfinished s) = set (unfinished (initial_pool n))"
      "slots s = run_threads sched (worker_threads tot n) (slots (initial_pool n))"
      "write_log s = write_log (initial_pool n)
         @ map (\<lambda>j. (j, nat (cap_i (worker_threads tot n ! j)))) sched"
    by blast
  have "map (\<lambda>j. (j, nat (cap_i (worker_threads tot n ! j)))) sched = map (\<lambda>j. (j, j)) sched"
  proof (rule map_cong)
    fix j assume "j \<in> set sched"
    with sched(3) have "j < nat n" by (auto simp: initial_pool_def)
    then show "(j, nat (cap_i (worker_threads tot n ! j))) = (j, j)"
      by (simp add: worker_threads_def threads_nth)
  qed simp
  with sched show ?thesis
    by (intro that [of sched]) (simp_all add: initial_pool_def)
qed

lemma joined_slots:
  assumes "rtranclp (thread_step (worker_threads tot n)) (initial_pool n) s"
    and "unfinished s = []"
  shows "slots s = map (worker_partial tot n) [0..<nat n]"
    and "complete_schedule n (map fst (write_log s))"
proof -
  obtain sched
    where sched: "write_log s = map (\<lambda>j. (j, j)) sched" "distinct sched"
      "set sched \<union> set (unfinished s) = {0..<nat n}"
      "set sched \<inter> set (unfinished s) = {}"
      "slots s = run_threads sched (worker_threads tot n) (replicate (nat n) (Finite 0))"
    by (rule pool_log [OF assms(1)])
  from sched(3) assms(2) have "set sched = {0..<nat n}"
    by simp
  with sched(2) have c: "complete_schedule n sched"
    by (rule distinct_range_complete)
  from run_threads_worker_partials [OF c] sched(5)
  show "slots s = map (worker_partial tot n) [0..<nat n]"
    by simp
  have "map fst (write_log s) = sched"
    by (simp add: sched(1) comp_def)
  with c show "complete_schedule n (map fst (write_log s))"
    by simp
qed

lemma calculatePi_returns_sum:
  assumes "1 \<le> n"
  shows "calculatePi_returns tot n
           (Inr (foldl fadd (Finite 0) (map (worker_partial tot n) [0..<nat n])))"
proof -
  let ?s = "\<lparr>unfinished = fold remove1 [0..<nat n] (unfinished (initial_pool n)),
        slots = run_threads [0..<nat n] (worker_threads tot n) (slots (initial_pool n)),
        write_log = write_log (initial_pool n)
          @ map (\<lambda>j. (j, nat (cap_i (worker_threads tot n ! j)))) [0..<nat n]\<rparr>"
  have run: "rtranclp (thread_step (worker_threads tot n)) (initial_pool n) ?s"
    by (rule pool_reach) (simp_all add: initial_pool_def worker_threads_def threads_length)
  have "fold remove1 [0..<nat n] ([0..<nat n] @ []) = []"
    by (rule fold_remove1_prefix)
  then have fin: "unfinished ?s = []"
    by (simp add: initial_pool_def)
  from joined_slots(1) [OF run fin] have "slots ?s = map (worker_partial tot n) [0..<nat n]" .
  moreover have "calculatePi_returns tot n (Inr (sum_results (Finite 0) (slots ?s)))"
    using assms run fin by (intro calculatePi_returns.joined) simp_all
  ultimately show ?thesis
    by (simp only: sum_results_foldl)
qed

lemma calculatePi_returns_value:
  assumes "calculatePi_returns tot n v"
  shows "v = (if n = 0 then Inl DivisionByZero
              else if n < 0 then Inl LengthError
              else Inr (foldl fadd (Finite 0) (map (worker_partial tot n) [0..<nat n])))"
  using assms
proof (cases rule: calculatePi_returns.cases)
  case (joined s)
  then have "slots s = map (worker_partial tot n) [0..<nat n]"
    by (intro joined_slots(1)) simp_all
  with joined show ?thesis
    by (simp add: sum_results_foldl)
qed simp_all

lemma calculatePi_returns_unique:
  assumes "calculatePi_returns tot n v" and "calculatePi_returns tot n v'"
  shows "v = v'"
  using assms [THEN calculatePi_returns_value] by simp

text \<open>
  C8: for fixed \<open>total_intervals\<close> and \<open>num_threads\<close>, any two runs of \<open>calculatePi\<close> return
  the same value, whatever the order in which the workers finish. In every run each
  worker writes its own slot of \<open>results\<close> and no other, and writes it once; when all
  threads are joined every slot has been written exactly once and holds the partial result
  of its worker; the value returned is the sum of the slots, added to \<open>0.0\<close> in ascending
  index order.
\<close>

theorem calculatePi_schedule_independent:
  "(\<forall>v v'. calculatePi_returns total_intervals num_threads v
        \<longrightarrow> calculatePi_returns total_intervals num_threads v' \<longrightarrow> v = v')
   \<and> (1 \<le> num_threads \<longrightarrow>
        calculatePi_returns total_intervals num_threads
          (Inr (foldl fadd (Finite 0)
             (map (worker_partial total_intervals num_threads) [0..<nat num_threads]))))
   \<and> (\<forall>s. rtranclp (thread_step (worker_threads total_intervals num_threads))
              (initial_pool num_threads) s \<longrightarrow>
          map snd (write_log s) = map fst (write_log s)
          \<and> distinct (map fst (write_log s))
          \<and> set (map fst (write_log s)) \<inter> set (unfinished s) = {}
          \<and> (unfinished s = [] \<longrightarrow>
                sort (map fst (write_log s)) = [0..<nat num_threads]
                \<and> slots s = map (worker_partial total_intervals num_threads) [0..<nat num_threads]
                \<and> (1 \<le> num_threads \<longrightarrow>
                      calculatePi_returns total_intervals num_threads
                        (Inr (foldl fadd (Finite 0) (slots s))))))
   \<and> (\<forall>sched. 1 \<le> num_threads \<longrightarrow> complete_schedule num_threads sched \<longrightarrow>
          calculatePi sched total_intervals num_threads =
            Inr (foldl fadd (Finite 0)
              (map (worker_partial total_intervals num_threads) [0..<nat num_threads])))"
proof (intro conjI allI impI)
  fix v v'
  assume "calculatePi_returns total_intervals num_threads v"
    and "calculatePi_returns total_intervals num_threads v'"
  then show "v = v'"
    by (rule calculatePi_returns_unique)
next
  assume "1 \<le> num_threads"
  then show "calculatePi_returns total_intervals num_threads
          (Inr (foldl fadd (Finite 0)
             (map (worker_partial total_intervals num_threads) [0..<nat num_threads])))"
    by (rule calculatePi_returns_sum)
next
  fix s
  assume run: "rtranclp (thread_step (worker_threads total_intervals num_threads))
              (initial_pool num_threads) s"
  obtain sched
    where sched: "write_log s = map (\<lambda>j. (j, j)) sched" "distinct sched"
      "set sched \<inter> set (unfinished s) = {}"
    by (rule pool_log [OF run])
  have fst: "map fst (write_log s) = sched" and snd: "map snd (write_log s) = sched"
    by (simp_all add: sched(1) comp_def)
  show "map snd (write_log s) = map fst (write_log s)"
    by (simp only: fst snd)
  show "distinct (map fst (write_log s))"
    using sched(2) by (simp only: fst)
  show "set (map fst (write_log s)) \<inter> set (unfinished s) = {}"
    using sched(3) by (simp only: fst)
  {
    assume fin: "unfinished s = []"
    from joined_slots(2) [OF run fin]
    show "sort (map fst (write_log s)) = [0..<nat num_threads]"
      by (simp only: complete_schedule_def)
    from joined_slots(1) [OF run fin]
    show "slots s = map (worker_partial total_intervals num_threads) [0..<nat num_threads]" .
    {
      assume "1 \<le> num_threads"
      then have "0 < num_threads" by simp
      from calculatePi_returns.joined [OF this run fin]
      show "calculatePi_returns total_intervals num_threads
              (Inr (foldl fadd (Finite 0) (slots s)))"
        by (simp only: sum_results_foldl)
    }
  }
next
  fix sched
  assume "1 \<le> num_threads" and "complete_schedule num_threads sched"
  then show "calculatePi sched total_intervals num_threads =
            Inr (foldl fadd (Finite 0)
              (map (worker_partial total_intervals num_threads) [0..<nat num_threads]))"
    by (rule calculatePi_complete)
qed

theorem calculatePi_schedule_independent_witness:
  "calculatePi_returns 10 3 (Inr (foldl fadd (Finite 0) (map (worker_partial 10 3) [0..<nat 3])))
   \<and> calculatePi [2, 0, 1] 10 3
       = Inr (foldl fadd (Finite 0) (map (worker_partial 10 3) [0..<nat 3]))
   \<and> calculatePi [0, 1, 2] 10 3 = calculatePi [2, 0, 1] 10 3"
proof -
  have "sort [0, 1, 2 :: nat] = [0..<nat 3]" "sort [2, 0, 1 :: nat] = [0..<nat 3]"
    by (simp_all add: numeral_eq_Suc upt_rec)
  then have c: "complete_schedule 3 [0, 1, 2]" "complete_schedule 3 [2, 0, 1]"
    by (simp_all add: complete_schedule_def)
  have n: "(1::int) \<le> 3"
    by simp
  note t = calculatePi_schedule_independent [of 10 3]
  from t have "(1::int) \<le> 3 \<longrightarrow> calculatePi_returns 10 3
      (Inr (foldl fadd (Finite 0) (map (worker_partial 10 3) [0..<nat 3])))"
    by (elim conjE)
  with n have 1: "calculatePi_returns 10 3
      (Inr (foldl fadd (Finite 0) (map (worker_partial 10 3) [0..<nat 3])))"
    by (rule rev_mp)
  from t have "\<forall>sched. (1::int) \<le> 3 \<longrightarrow> complete_schedule 3 sched \<longrightarrow>
      calculatePi sched 10 3
        = Inr (foldl fadd (Finite 0) (map (worker_partial 10 3) [0..<nat 3]))"
    by (elim conjE)
  note v = this [rule_format, OF n]
  from v [OF c(1)] v [OF c(2)] 1 show ?thesis
    by simp
qed

section \<open>Empty ranges\<close>

lemma round_double_representable:
  assumes "is_double (Finite q)"
  shows "round_double q = Finite q"
proof (cases "q = 0")
  case True
  then show ?thesis by simp
next
  case False
  define u :: rat where "u = 2 powi (max (expo q) (- 1022) - 52)"
  have upos: "0 < u" by (simp add: u_def)
  from assms False have fin: "\<bar>q\<bar> < overflow_threshold" and int: "of_int \<lfloor>q / u\<rfloor> = q / u"
    by (simp_all add: is_double_def u_def)
  have "round_half_even (q / u) = \<lfloor>q / u\<rfloor>"
    using round_half_even_of_int [of "\<lfloor>q / u\<rfloor>"] by (simp only: int)
  then have "of_int (round_half_even (q / u)) * u = q"
    using upos by (simp add: int)
  then show ?thesis
    using False fin by (simp add: round_double_nonzero u_def [symmetric])
qed

lemma fadd_zero_right: "is_double p \<Longrightarrow> fadd p (Finite 0) = p"
  by (cases p) (simp_all add: round_double_representable)

lemma scaled_round_bounds:
  fixes q u :: rat
  assumes "0 < u" and "of_int L * u \<le> \<bar>q\<bar>" and "\<bar>q\<bar> \<le> of_int U * u"
  shows "L \<le> \<bar>round_half_even (q / u)\<bar>" and "\<bar>round_half_even (q / u)\<bar> \<le> U"
proof -
  have lu: "of_int L \<le> \<bar>q\<bar> / u" "\<bar>q\<bar> / u \<le> of_int U"
    using assms by (simp_all add: pos_le_divide_eq pos_divide_le_eq)
  show "L \<le> \<bar>round_half_even (q / u)\<bar>"
  proof (cases "0 \<le> q")
    case True
    with lu have "of_int L \<le> q / u" by simp
    then have "L \<le> round_half_even (q / u)" by (rule round_half_even_ge)
    then show ?thesis by simp
  next
    case False
    with lu have "q / u \<le> of_int (- L)" by simp
    then have "round_half_even (q / u) \<le> - L" by (rule round_half_even_le)
    then show ?thesis by simp
  qed
  show "\<bar>round_half_even (q / u)\<bar> \<le> U"
  proof (cases "0 \<le> q")
    case True
    with lu assms(1) have "q / u \<le> of_int U" "of_int 0 \<le> q / u" by simp_all
    then have "round_half_even (q / u) \<le> U" "0 \<le> round_half_even (q / u)"
      by (auto intro: round_half_even_le round_half_even_ge)
    then show ?thesis by simp
  next
    case False
    with lu assms(1) have "of_int (- U) \<le> q / u" "q / u \<le> of_int 0"
      by (simp_all add: divide_le_0_iff)
    then have "- U \<le> round_half_even (q / u)" "round_half_even (q / u) \<le> 0"
      by (auto intro: round_half_even_le round_half_even_ge)
    then show ?thesis by simp
  qed
qed

lemma is_double_round: "is_double (round_double q)"
proof (cases "q = 0")
  case True
  then show ?thesis by (simp add: is_double_def)
next
  case False
  define e where "e = max (expo q) (- 1022)"
  define u :: rat where "u = 2 powi (e - 52)"
  define k where "k = round_half_even (q / u)"
  define r where "r = of_int k * u"
  have upos: "0 < u" by (simp add: u_def)
  have rd: "round_double q = (if overflow_threshold \<le> \<bar>r\<bar>
              then (if 0 < q then PlusInf else MinusInf) else Finite r)"
    using False by (simp add: round_double_nonzero r_def k_def u_def e_def)
  have absr: "\<bar>r\<bar> = of_int \<bar>k\<bar> * u"
    using upos by (simp add: r_def abs_mult)
  have ru: "r / u = of_int k"
    using upos by (simp add: r_def)
  have p52: "(2::rat) powi e = of_int (2 ^ 52) * u"
    using power_int_add [of "2::rat" 52 "e - 52"] by (simp add: u_def)
  have p53: "(2::rat) powi (e + 1) = of_int (2 ^ 53) * u"
    using power_int_add [of "2::rat" 53 "e - 52"] by (simp add: u_def add.commute)
  have same: "of_int \<lfloor>r / 2 powi (max (expo r) (- 1022) - 52)\<rfloor>
                = r / 2 powi (max (expo r) (- 1022) - 52)" if "r \<noteq> 0"
  proof (cases "- 1022 \<le> expo q")
    case True
    then have e: "e = expo q" by (simp add: e_def)
    from expo_bounds [OF False] have "of_int (2 ^ 52) * u \<le> \<bar>q\<bar>" "\<bar>q\<bar> \<le> of_int (2 ^ 53) * u"
      unfolding p52 [symmetric] p53 [symmetric] e by simp_all
    from scaled_round_bounds [OF upos this] have k: "2 ^ 52 \<le> \<bar>k\<bar>" "\<bar>k\<bar> \<le> 2 ^ 53"
      by (simp_all add: k_def)
    then have "(of_int (2 ^ 52) :: rat) \<le> of_int \<bar>k\<bar>" "(of_int \<bar>k\<bar> :: rat) \<le> of_int (2 ^ 53)"
      by (simp_all only: of_int_le_iff)
    then have lo: "2 powi e \<le> \<bar>r\<bar>" and hi: "\<bar>r\<bar> \<le> 2 powi (e + 1)"
      unfolding p52 p53 absr using upos by (simp_all add: mult_right_mono)
    show ?thesis
    proof (cases "\<bar>k\<bar> = 2 ^ 53")
      case False
      with k have "\<bar>k\<bar> < 2 ^ 53" by simp
      then have "(of_int \<bar>k\<bar> :: rat) < of_int (2 ^ 53)"
        by (simp only: of_int_less_iff)
      then have "\<bar>r\<bar> < 2 powi (e + 1)"
        unfolding p53 absr using upos by (simp add: mult_strict_right_mono)
      with lo have "expo r = e" by (rule expo_unique)
      with True e have "max (expo r) (- 1022) = e"
        by simp
      then show ?thesis
        by (simp only: u_def [symmetric] ru floor_of_int)
    next
      case k53: True
      then have "\<bar>r\<bar> = 2 powi (e + 1)"
        unfolding p53 absr by simp
      moreover have "(2::rat) powi (e + 1) < 2 powi (e + 1 + 1)"
        by (intro power_int_strict_increasing) auto
      ultimately have "expo r = e + 1"
        by (intro expo_unique) simp_all
      moreover have "(2::rat) powi (e + 1 - 52) = 2 * u"
        using power_int_add [of "2::rat" 1 "e - 52"] by (simp add: u_def add.commute)
      ultimately have rk: "r / 2 powi (max (expo r) (- 1022) - 52) = of_int k / 2"
        using True e upos by (simp add: r_def max_def)
      from k53 have "k = 2 ^ 53 \<or> k = - (2 ^ 53)"
        by (auto simp: abs_if split: if_splits)
      then have "(of_int k :: rat) / 2 = of_int (k div 2)"
        by auto
      with rk have "r / 2 powi (max (expo r) (- 1022) - 52) = of_int (k div 2)"
        by simp
      then show ?thesis
        by (simp only: floor_of_int)
    qed
  next
    case sub: False
    then have e: "e = - 1022" by (simp add: e_def)
    from sub have "expo q + 1 \<le> - 1022" by simp
    then have "(2::rat) powi (expo q + 1) \<le> 2 powi (- 1022)"
      by (intro power_int_increasing) auto
    with expo_bounds(2) [OF False] have "\<bar>q\<bar> \<le> of_int (2 ^ 52) * u"
      unfolding p52 [symmetric] e by simp
    moreover have "of_int 0 * u \<le> \<bar>q\<bar>"
      by simp
    ultimately have "\<bar>k\<bar> \<le> 2 ^ 52"
      unfolding k_def using upos by (intro scaled_round_bounds(2))
    then have "(of_int \<bar>k\<bar> :: rat) \<le> of_int (2 ^ 52)"
      by (simp only: of_int_le_iff)
    then have hi: "\<bar>r\<bar> \<le> 2 powi (- 1022)"
      using upos unfolding absr e [symmetric] p52 by (simp add: mult_right_mono)
    have "expo r \<le> - 1022"
    proof (cases "\<bar>r\<bar> = 2 powi (- 1022)")
      case True
      moreover have "(2::rat) powi (- 1022) < 2 powi (- 1022 + 1)"
        by (intro power_int_strict_increasing) auto
      ultimately have "expo r = - 1022"
        by (intro expo_unique) simp_all
      then show ?thesis by simp
    next
      case False
      with hi have "\<bar>r\<bar> < 2 powi (- 1022)" by simp
      with that have "expo r < - 1022" by (rule expo_less)
      then show ?thesis by simp
    qed
    then have "max (expo r) (- 1022) = e"
      by (simp add: e)
    then show ?thesis
      by (simp add: ru u_def [symmetric])
  qed
  show ?thesis
    unfolding rd using same by (auto simp: is_double_def not_le)
qed

lemma is_double_fadd: "is_double (fadd x y)"
  by (cases x; cases y) (simp_all add: is_double_round, simp_all add: is_double_def)

lemma is_double_sum_results: "is_double p \<Longrightarrow> is_double (sum_results p rs)"
  by (induction rs arbitrary: p) (simp_all add: is_double_fadd)

lemma sum_results_skip_zero:
  "sum_results (Finite 0) (rs @ Finite 0 # rs') = sum_results (Finite 0) (rs @ rs')"
proof -
  have "is_double (sum_results (Finite 0) rs)"
    by (rule is_double_sum_results) (simp add: is_double_def)
  then show ?thesis
    by (simp add: sum_results_append fadd_zero_right)
qed

text \<open>
  C10: when \<open>start \<ge> end\<close> the loop body never runs and \<open>integrate\<close> returns exactly \<open>0.0\<close>;
  such a result contributes nothing to the aggregated value: the loop that adds up
  \<open>results\<close> returns the same \<open>pi\<close> with and without it.
\<close>

theorem integrate_empty_range:
  assumes "0 < total_intervals" and "end' \<le> start"
  shows "integrate start end' total_intervals = Finite 0
    \<and> sum_results (Finite 0) (results @ integrate start end' total_intervals # results')
        = sum_results (Finite 0) (results @ results')"
  using assms(2) by (simp add: integrate_def integrate_loop_empty sum_results_skip_zero)

theorem integrate_empty_range_witness:
  "integrate 3 3 5 = Finite 0
   \<and> sum_results (Finite 0) ([Finite 1] @ integrate 3 3 5 # [Finite 2])
       = sum_results (Finite 0) ([Finite 1] @ [Finite 2])"
proof -
  have "0 < (5::int)" "(3::int) \<le> 3"
    by simp_all
  from integrate_empty_range [OF this] show ?thesis
    by blast
qed

section \<open>The main program\<close>

text \<open>
  C4: if the integer read is below 1 or above 50 the program prints exactly
  \<open>Liczba watkow musi byc w przedziale 1-50.\<close> and a newline to standard error and exits
  with status 1; otherwise it runs the computation with \<open>total_intervals = 100000000\<close>
  and exits with status 0.
\<close>

theorem main_validates_thread_count:
  "(num_threads < 1 \<or> 50 < num_threads \<longrightarrow>
      main sched elapsed num_threads =
        \<lparr>stdout = ''Podaj liczbe watkow (1-50): '',
         stderr = ''Liczba watkow musi byc w przedziale 1-50.'' @ [CHR 0x0A],
         status = Exit 1\<rparr>)
   \<and> (1 \<le> num_threads \<and> num_threads \<le> 50 \<longrightarrow>
      (\<exists>pi'. calculatePi sched 100000000 num_threads = Inr pi'
         \<and> main sched elapsed num_threads =
             \<lparr>stdout = ''Podaj liczbe watkow (1-50): '' @ timing_line num_threads elapsed
                 @ ''Przyblizona wartosc PI wynosi: '' @ show_fixed 8 pi' @ [CHR 0x0A],
              stderr = [],
              status = Exit 0\<rparr>))"
proof (intro conjI impI)
  assume "num_threads < 1 \<or> 50 < num_threads"
  then show "main sched elapsed num_threads =
        \<lparr>stdout = ''Podaj liczbe watkow (1-50): '',
         stderr = ''Liczba watkow musi byc w przedziale 1-50.'' @ [CHR 0x0A],
         status = Exit 1\<rparr>"
    by (auto simp: main_def)
next
  assume a: "1 \<le> num_threads \<and> num_threads \<le> 50"
  then obtain p where p: "calculatePi sched 100000000 num_threads = Inr p"
    by (simp add: calculatePi_def Let_def)
  with a have "main sched elapsed num_threads =
             \<lparr>stdout = ''Podaj liczbe watkow (1-50): '' @ timing_line num_threads elapsed
                 @ ''Przyblizona wartosc PI wynosi: '' @ show_fixed 8 p @ [CHR 0x0A],
              stderr = [],
              status = Exit 0\<rparr>"
    by (simp add: main_def)
  with p show "\<exists>pi'. calculatePi sched 100000000 num_threads = Inr pi'
         \<and> main sched elapsed num_threads =
             \<lparr>stdout = ''Podaj liczbe watkow (1-50): '' @ timing_line num_threads elapsed
                 @ ''Przyblizona wartosc PI wynosi: '' @ show_fixed 8 pi' @ [CHR 0x0A],
              stderr = [],
              status = Exit 0\<rparr>"
    by blast
qed

theorem main_validates_thread_count_witness:
  "main [] (Finite 0) 0 =
        \<lparr>stdout = ''Podaj liczbe watkow (1-50): '',
         stderr = ''Liczba watkow musi byc w przedziale 1-50.'' @ [CHR 0x0A],
         status = Exit 1\<rparr>
   \<and> main [] (Finite 0) 51 =
        \<lparr>stdout = ''Podaj liczbe watkow (1-50): '',
         stderr = ''Liczba watkow musi byc w przedziale 1-50.'' @ [CHR 0x0A],
         status = Exit 1\<rparr>
   \<and> status (main [0, 1, 2, 3] (Finite 1) 4) = Exit 0"
proof -
  have a: "(0::int) < 1 \<or> 50 < (0::int)" and b: "(51::int) < 1 \<or> 50 < (51::int)"
    and c: "1 \<le> (4::int) \<and> (4::int) \<le> 50"
    by simp_all
  from main_validates_thread_count [of 0 "[]" "Finite 0"] a
  have 1: "main [] (Finite 0) 0 =
        \<lparr>stdout = ''Podaj liczbe watkow (1-50): '',
         stderr = ''Liczba watkow musi byc w przedziale 1-50.'' @ [CHR 0x0A],
         status = Exit 1\<rparr>"
    by blast
  from main_validates_thread_count [of 51 "[]" "Finite 0"] b
  have 2: "main [] (Finite 0) 51 =
        \<lparr>stdout = ''Podaj liczbe watkow (1-50): '',
         stderr = ''Liczba watkow musi byc w przedziale 1-50.'' @ [CHR 0x0A],
         status = Exit 1\<rparr>"
    by blast
  from main_validates_thread_count [of 4 "[0, 1, 2, 3]" "Finite 1"] c
  obtain p where "main [0, 1, 2, 3] (Finite 1) 4 =
             \<lparr>stdout = ''Podaj liczbe watkow (1-50): '' @ timing_line 4 (Finite 1)
                 @ ''Przyblizona wartosc PI wynosi: '' @ show_fixed 8 p @ [CHR 0x0A],
              stderr = [],
              status = Exit 0\<rparr>"
    by blast
  then have 3: "status (main [0, 1, 2, 3] (Finite 1) 4) = Exit 0"
    by simp
  from 1 2 3 show ?thesis
    by (intro conjI)
qed

section \<open>Evaluation on four intervals\<close>

text \<open>
  The roundings that occur when the interval \<open>[0, 1]\<close> is cut into four steps, each
  certified by its exponent and its rounded significand.
\<close>

lemma round_00: "round_double (1 / 4) = Finite (1 / 4)"
  using round_double_cert [where e = "- 2" and q = "1 / 4" and u = "1 / 18014398509481984"
      and k = 4503599627370496]
  by simp

lemma round_01: "round_double 1 = Finite 1"
  using round_double_cert [where e = 0 and q = 1 and u = "1 / 4503599627370496"
      and k = 4503599627370496]
  by simp

lemma round_02: "round_double 4 = Finite 4"
  using round_double_cert [where e = 2 and q = 4 and u = "1 / 1125899906842624"
      and k = 4503599627370496]
  by simp

lemma round_03: "round_double (1 / 16) = Finite (1 / 16)"
  using round_double_cert [where e = "- 4" and q = "1 / 16" and u = "1 / 72057594037927936"
      and k = 4503599627370496]
  by simp

lemma round_04: "round_double (17 / 16) = Finite (17 / 16)"
  using round_double_cert [where e = 0 and q = "17 / 16" and u = "1 / 4503599627370496"
      and k = 4785074604081152]
  by simp

lemma round_05: "round_double (64 / 17) = Finite (4238682002231055 / 1125899906842624)"
  using round_double_cert [where e = 1 and q = "64 / 17" and u = "1 / 2251799813685248"
      and k = 8477364004462110]
  by simp

lemma round_06: "round_double (8742281629601551 / 1125899906842624) = Finite (8742281629601551 / 1125899906842624)"
  using round_double_cert [where e = 2 and q = "8742281629601551 / 1125899906842624" and u = "1 / 1125899906842624"
      and k = 8742281629601551]
  by simp

lemma round_07: "round_double (8742281629601551 / 4503599627370496) = Finite (8742281629601551 / 4503599627370496)"
  using round_double_cert [where e = 0 and q = "8742281629601551 / 4503599627370496" and u = "1 / 4503599627370496"
      and k = 8742281629601551]
  by simp

lemma round_08: "round_double (8742281629601551 / 9007199254740992) = Finite (8742281629601551 / 9007199254740992)"
  using round_double_cert [where e = "- 1" and q = "8742281629601551 / 9007199254740992" and u = "1 / 9007199254740992"
      and k = 8742281629601551]
  by simp

lemma round_09: "round_double (1 / 2) = Finite (1 / 2)"
  using round_double_cert [where e = "- 1" and q = "1 / 2" and u = "1 / 9007199254740992"
      and k = 4503599627370496]
  by simp

lemma round_10: "round_double (5 / 4) = Finite (5 / 4)"
  using round_double_cert [where e = 0 and q = "5 / 4" and u = "1 / 4503599627370496"
      and k = 5629499534213120]
  by simp

lemma round_11: "round_double (16 / 5) = Finite (3602879701896397 / 1125899906842624)"
  using round_double_cert [where e = 1 and q = "16 / 5" and u = "1 / 2251799813685248"
      and k = 7205759403792794]
  by simp

lemma round_12: "round_double (1960390426031863 / 281474976710656) = Finite (1960390426031863 / 281474976710656)"
  using round_double_cert [where e = 2 and q = "1960390426031863 / 281474976710656" and u = "1 / 1125899906842624"
      and k = 7841561704127452]
  by simp

lemma round_13: "round_double (1960390426031863 / 1125899906842624) = Finite (1960390426031863 / 1125899906842624)"
  using round_double_cert [where e = 0 and q = "1960390426031863 / 1125899906842624" and u = "1 / 4503599627370496"
      and k = 7841561704127452]
  by simp

lemma round_14: "round_double (1960390426031863 / 2251799813685248) = Finite (1960390426031863 / 2251799813685248)"
  using round_double_cert [where e = "- 1" and q = "1960390426031863 / 2251799813685248" and u = "1 / 9007199254740992"
      and k = 7841561704127452]
  by simp

lemma round_15: "round_double (16583843333729003 / 9007199254740992) = Finite (4145960833432251 / 2251799813685248)"
  using round_double_cert_tie [where e = 0 and q = "16583843333729003 / 9007199254740992" and u = "1 / 4503599627370496"
      and n = 8291921666864501 and k = 8291921666864502]
  by simp

lemma round_16: "round_double (3 / 4) = Finite (3 / 4)"
  using round_double_cert [where e = "- 1" and q = "3 / 4" and u = "1 / 9007199254740992"
      and k = 6755399441055744]
  by simp

lemma round_17: "round_double (9 / 16) = Finite (9 / 16)"
  using round_double_cert [where e = "- 1" and q = "9 / 16" and u = "1 / 9007199254740992"
      and k = 5066549580791808]
  by simp

lemma round_18: "round_double (25 / 16) = Finite (25 / 16)"
  using round_double_cert [where e = 0 and q = "25 / 16" and u = "1 / 4503599627370496"
      and k = 7036874417766400]
  by simp

lemma round_19: "round_double (64 / 25) = Finite (5764607523034235 / 2251799813685248)"
  using round_double_cert [where e = 1 and q = "64 / 25" and u = "1 / 2251799813685248"
      and k = 5764607523034235]
  by simp

lemma round_20: "round_double (12970366926827029 / 2251799813685248) = Finite (3242591731706757 / 562949953421312)"
  using round_double_cert_tie [where e = 2 and q = "12970366926827029 / 2251799813685248" and u = "1 / 1125899906842624"
      and n = 6485183463413514 and k = 6485183463413514]
  by simp

lemma round_21: "round_double (3242591731706757 / 2251799813685248) = Finite (3242591731706757 / 2251799813685248)"
  using round_double_cert [where e = 0 and q = "3242591731706757 / 2251799813685248" and u = "1 / 4503599627370496"
      and k = 6485183463413514]
  by simp

lemma round_22: "round_double (3242591731706757 / 4503599627370496) = Finite (3242591731706757 / 4503599627370496)"
  using round_double_cert [where e = "- 1" and q = "3242591731706757 / 4503599627370496" and u = "1 / 9007199254740992"
      and k = 6485183463413514]
  by simp

lemma round_23: "round_double (11534513398571259 / 4503599627370496) = Finite (2883628349642815 / 1125899906842624)"
  using round_double_cert_tie [where e = 1 and q = "11534513398571259 / 4503599627370496" and u = "1 / 2251799813685248"
      and n = 5767256699285629 and k = 5767256699285630]
  by simp

lemma round_24: "round_double 2 = Finite 2"
  using round_double_cert [where e = 1 and q = 2 and u = "1 / 2251799813685248"
      and k = 4503599627370496]
  by simp

lemma round_25: "round_double (10268207150404731 / 2251799813685248) = Finite (2567051787601183 / 562949953421312)"
  using round_double_cert_tie [where e = 2 and q = "10268207150404731 / 2251799813685248" and u = "1 / 1125899906842624"
      and n = 5134103575202365 and k = 5134103575202366]
  by simp

lemma round_26: "round_double (2567051787601183 / 2251799813685248) = Finite (2567051787601183 / 2251799813685248)"
  using round_double_cert [where e = 0 and q = "2567051787601183 / 2251799813685248" and u = "1 / 4503599627370496"
      and k = 5134103575202366]
  by simp

lemma round_27: "round_double (2567051787601183 / 4503599627370496) = Finite (2567051787601183 / 4503599627370496)"
  using round_double_cert [where e = "- 1" and q = "2567051787601183 / 4503599627370496" and u = "1 / 9007199254740992"
      and k = 5134103575202366]
  by simp

lemma round_28: "round_double (14101565186172443 / 4503599627370496) = Finite (3525391296543111 / 1125899906842624)"
  using round_double_cert_tie [where e = 1 and q = "14101565186172443 / 4503599627370496" and u = "1 / 2251799813685248"
      and n = 7050782593086221 and k = 7050782593086222]
  by simp

lemma round_29: "round_double (1452410879826985 / 1125899906842624) = Finite (1452410879826985 / 1125899906842624)"
  using round_double_cert [where e = 0 and q = "1452410879826985 / 1125899906842624" and u = "1 / 4503599627370496"
      and k = 5809643519307940]
  by simp

lemma round_30: "round_double (3525391296543111 / 1125899906842624) = Finite (3525391296543111 / 1125899906842624)"
  using round_double_cert [where e = 1 and q = "3525391296543111 / 1125899906842624" and u = "1 / 2251799813685248"
      and k = 7050782593086222]
  by simp

lemma round_31: "round_double (4145960833432251 / 2251799813685248) = Finite (4145960833432251 / 2251799813685248)"
  using round_double_cert [where e = 0 and q = "4145960833432251 / 2251799813685248" and u = "1 / 4503599627370496"
      and k = 8291921666864502]
  by simp

lemma round_32: "round_double (7050782593086221 / 2251799813685248) = Finite (7050782593086221 / 2251799813685248)"
  using round_double_cert [where e = 1 and q = "7050782593086221 / 2251799813685248" and u = "1 / 2251799813685248"
      and k = 7050782593086221]
  by simp

lemmas four_interval_roundings =
  round_00 round_01 round_02 round_03 round_04 round_05 round_06 round_07
  round_08 round_09 round_10 round_11 round_12 round_13 round_14 round_15
  round_16 round_17 round_18 round_19 round_20 round_21 round_22 round_23
  round_24 round_25 round_26 round_27 round_28 round_29 round_30 round_31
  round_32

lemma integrate_0_4_4: "integrate 0 4 4 = Finite (3525391296543111 / 1125899906842624)"
  by (simp add: integrate_def integrate_loop_foldl upto_rec1 trapezoid_term_def f_def
      double_of_int_def four_interval_roundings)

lemma integrate_0_2_4: "integrate 0 2 4 = Finite (4145960833432251 / 2251799813685248)"
  by (simp add: integrate_def integrate_loop_foldl upto_rec1 trapezoid_term_def f_def
      double_of_int_def four_interval_roundings)

lemma integrate_2_4_4: "integrate 2 4 4 = Finite (1452410879826985 / 1125899906842624)"
  by (simp add: integrate_def integrate_loop_foldl upto_rec1 trapezoid_term_def f_def
      double_of_int_def four_interval_roundings)

theorem integrate_is_trapezoid_sum_witness:
  "integrate 0 2 4 = trapezoid_sum_spec 0 2 4
   \<and> trapezoid_sum_spec 0 2 4 = Finite (4145960833432251 / 2251799813685248)"
  using integrate_is_trapezoid_sum [of 0 2 4] integrate_0_2_4 by simp

lemma calculatePi_4_1:
  "calculatePi [0] 4 1 = Inr (Finite (3525391296543111 / 1125899906842624))"
proof -
  have "complete_schedule 1 [0]"
    by (simp add: complete_schedule_def)
  then have "calculatePi [0] 4 1 = Inr (foldl fadd (Finite 0) (map (worker_partial 4 1) [0..<nat 1]))"
    by (intro calculatePi_complete) simp_all
  moreover have "worker_partial 4 1 0 = integrate 0 4 4"
    by (simp add: worker_partial_def int_div_def)
  ultimately show ?thesis
    by (simp add: integrate_0_4_4 four_interval_roundings)
qed

lemma calculatePi_4_2:
  "calculatePi [0, 1] 4 2 = Inr (Finite (7050782593086221 / 2251799813685248))"
proof -
  have l: "[0..<nat 2] = [0, 1]"
    by (simp add: numeral_eq_Suc upt_rec)
  then have "complete_schedule 2 [0, 1]"
    by (simp add: complete_schedule_def)
  then have "calculatePi [0, 1] 4 2 = Inr (foldl fadd (Finite 0) (map (worker_partial 4 2) [0..<nat 2]))"
    by (intro calculatePi_complete) simp_all
  moreover have "worker_partial 4 2 0 = integrate 0 2 4"
    by (simp add: worker_partial_def int_div_def)
  moreover have "worker_partial 4 2 1 = integrate 2 4 4"
    by (simp add: worker_partial_def int_div_def)
  ultimately show ?thesis
    unfolding l by (simp add: integrate_0_2_4 integrate_2_4_4 four_interval_roundings)
qed

text \<open>
  C5 fails as stated: with four intervals, one thread and two threads return values
  that differ in the last bit.
\<close>

theorem calculatePi_differs_between_1_and_2_threads:
  "calculatePi [0] 4 1 = Inr (Finite (3525391296543111 / 1125899906842624))
   \<and> calculatePi [0, 1] 4 2 = Inr (Finite (7050782593086221 / 2251799813685248))
   \<and> calculatePi [0] 4 1 \<noteq> calculatePi [0, 1] 4 2"
  unfolding calculatePi_4_1 calculatePi_4_2 by simp

text \<open>
  C6 fails as stated: the range \<open>[0, 4)\<close> integrated in one piece differs in the last
  bit from the sum of its halves \<open>[0, 2)\<close> and \<open>[2, 4)\<close>, whether the two halves are added
  in double precision or exactly.
\<close>

theorem integrate_not_additive_on_halves:
  "contiguous_from 0 [(0, 2), (2, 4)] 4
   \<and> integrate 0 4 4 \<noteq> foldl fadd (Finite 0) (map (\<lambda>(s, e). integrate s e 4) [(0, 2), (2, 4)])
   \<and> value_of (integrate 0 4 4) \<noteq> (\<Sum>(s, e)\<leftarrow>[(0, 2), (2, 4)]. value_of (integrate s e 4))"
  by (simp add: integrate_0_4_4 integrate_0_2_4 integrate_2_4_4 four_interval_roundings)

section \<open>Accumulated rounding error\<close>

lemma round_double_near:
  assumes "0 \<le> q" and "q < 2 powi m" and "- 1021 \<le> m" and "m \<le> 1023"
  obtains r where "round_double q = Finite r" and "0 \<le> r"
    and "r \<le> q + 2 powi (m - 54)" and "q - 2 powi (m - 54) \<le> r"
proof -
  from assms have "\<bar>q\<bar> < 2 powi m" by simp
  from round_double_error [OF this assms(3,4)] assms(1)
  obtain r where "round_double q = Finite r" "\<bar>r - q\<bar> \<le> 2 powi (m - 54)" "0 \<le> r"
    by auto
  then show ?thesis
    by (intro that [of r]) (auto simp: abs_le_iff)
qed

lemma step_bounds:
  assumes "1 \<le> n" and "n < 2 ^ 31"
  obtains h where "fdiv (Finite 1) (double_of_int n) = Finite h" and "0 \<le> h"
    and "of_int n * h \<le> 1 + 1 / 2 ^ 22"
proof -
  have "(of_int n :: rat) < of_int (2 ^ 31)"
    using assms(2) by (simp only: of_int_less_iff)
  then have n: "(1::rat) \<le> of_int n" "(of_int n :: rat) < 2 ^ 31"
    using assms(1) by simp_all
  then have q: "(0::rat) \<le> 1 / of_int n" "1 / of_int n < (2::rat) powi 1"
    by (simp_all add: divide_less_eq)
  from round_double_near [OF q] obtain h where h: "round_double (1 / of_int n) = Finite h"
      "0 \<le> h" "h \<le> 1 / of_int n + 2 powi (1 - 54)"
    by auto
  have "of_int n * h \<le> of_int n * (1 / of_int n + 2 powi (1 - 54))"
    using h(3) n by (intro mult_left_mono) auto
  also have "\<dots> = 1 + of_int n * (1 / 2 ^ 53)"
    using n by (simp add: algebra_simps)
  also have "\<dots> \<le> 1 + 2 ^ 31 * (1 / 2 ^ 53)"
    using n by (intro add_left_mono mult_right_mono) auto
  also have "\<dots> = 1 + 1 / 2 ^ 22"
    by simp
  finally have "of_int n * h \<le> 1 + 1 / 2 ^ 22" .
  moreover have "fdiv (Finite 1) (double_of_int n) = Finite h"
    using n h(1) by (simp add: double_of_int_def)
  ultimately show ?thesis
    using h(2) by (intro that [of h])
qed

lemma f_bounds:
  assumes "0 \<le> a" and "a < 2"
  obtains g where "f (Finite a) = Finite g" and "0 \<le> g" and "g \<le> 9 / 2"
proof -
  have "a * a \<le> a * 2"
    using assms by (intro mult_left_mono) auto
  with assms have "a * a < 2 * 2"
    by simp
  with assms have "0 \<le> a * a" "a * a < 2 powi 2"
    by simp_all
  from round_double_near [OF this] obtain b where b: "round_double (a * a) = Finite b"
      "0 \<le> b" "b \<le> a * a + 2 powi (2 - 54)"
    by auto
  with \<open>a * a < 2 * 2\<close> have "0 \<le> 1 + b" "1 + b < 2 powi 3"
    by simp_all
  from round_double_near [OF this] obtain c where c: "round_double (1 + b) = Finite c"
      "1 + b - 2 powi (3 - 54) \<le> c"
    by auto
  with b(2) have c1: "1 - 1 / 2 ^ 51 \<le> c"
    by simp
  then have cpos: "0 < c"
    by simp
  have "4 / c \<le> 4 / (1 - 1 / 2 ^ 51)"
    using c1 by (intro divide_left_mono) auto
  also have "\<dots> \<le> 17 / 4"
    by simp
  finally have d: "4 / c \<le> 17 / 4" .
  with cpos have "0 \<le> 4 / c" "4 / c < 2 powi 3"
    by simp_all
  from round_double_near [OF this] obtain g where g: "round_double (4 / c) = Finite g"
      "0 \<le> g" "g \<le> 4 / c + 2 powi (3 - 54)"
    by auto
  have "f (Finite a) = Finite g"
    using b(1) c(1) g(1) cpos by (simp add: f_def)
  moreover have "g \<le> 9 / 2"
    using g(3) d by simp
  ultimately show ?thesis
    using g(2) by (intro that [of g])
qed

lemma term_bounds:
  assumes "0 \<le> h" and "of_int (i + 1) * h \<le> 1 + 1 / 2 ^ 22" and "0 \<le> i"
  obtains t where "trapezoid_term (Finite h) i = Finite t" and "0 \<le> t"
    and "t \<le> 5 * h + 1 / 2 ^ 49"
proof -
  have i: "(0::rat) \<le> of_int i" "(of_int (i + 1) :: rat) = of_int i + 1"
    using assms(3) by simp_all
  have h1: "h \<le> of_int (i + 1) * h"
    using assms(1) i mult_right_mono [of 1 "of_int i + 1" h] by simp
  have q0: "of_int i * h \<le> of_int (i + 1) * h"
    using assms(1) i by (simp add: algebra_simps)
  have "0 \<le> of_int i * h" "of_int i * h < 2 powi 1"
    using assms(1,2) i(1) q0 by simp_all
  from round_double_near [OF this] obtain a0 where a0: "round_double (of_int i * h) = Finite a0"
      "0 \<le> a0" "a0 \<le> of_int i * h + 2 powi (1 - 54)"
    by auto
  have "0 \<le> of_int (i + 1) * h" "of_int (i + 1) * h < 2 powi 1"
    using assms(1,2) i(1) by simp_all
  from round_double_near [OF this] obtain a1 where a1: "round_double (of_int (i + 1) * h) = Finite a1"
      "0 \<le> a1" "a1 \<le> of_int (i + 1) * h + 2 powi (1 - 54)"
    by auto
  have "a0 < 2" "a1 < 2"
    using a0(3) a1(3) q0 assms(2) by simp_all
  from f_bounds [OF a0(2) this(1)] f_bounds [OF a1(2) this(2)]
  obtain g0 g1 where g: "f (Finite a0) = Finite g0" "0 \<le> g0" "g0 \<le> 9 / 2"
      "f (Finite a1) = Finite g1" "0 \<le> g1" "g1 \<le> 9 / 2"
    by metis
  then have "0 \<le> g0 + g1" "g0 + g1 < 2 powi 4"
    by simp_all
  from round_double_near [OF this] obtain s where s: "round_double (g0 + g1) = Finite s"
      "0 \<le> s" "s \<le> g0 + g1 + 2 powi (4 - 54)"
    by auto
  with g have s10: "s \<le> 10"
    by simp
  have sh: "s * h \<le> 10 * h"
    using s10 assms(1) by (intro mult_right_mono) auto
  have "h \<le> 1 + 1 / 2 ^ 22"
    using h1 assms(2) by simp
  with sh s(2) assms(1) have "0 \<le> s * h" "s * h < 2 powi 5"
    by simp_all
  from round_double_near [OF this] obtain p where p: "round_double (s * h) = Finite p"
      "0 \<le> p" "p \<le> s * h + 2 powi (5 - 54)"
    by auto
  with sh \<open>h \<le> 1 + 1 / 2 ^ 22\<close> have "0 \<le> p / 2" "p / 2 < 2 powi 4"
    by simp_all
  from round_double_near [OF this] obtain t where t: "round_double (p / 2) = Finite t"
      "0 \<le> t" "t \<le> p / 2 + 2 powi (4 - 54)"
    by auto
  have "trapezoid_term (Finite h) i = Finite t"
    using a0(1) a1(1) g(1,4) s(1) p(1) t(1)
    by (simp add: trapezoid_term_def double_of_int_def)
  moreover have "t \<le> 5 * h + 1 / 2 ^ 49"
    using t(3) p(3) sh by simp
  ultimately show ?thesis
    using t(2) by (intro that [of t])
qed

lemma foldl_fadd_error:
  assumes "\<forall>x\<in>set xs. \<exists>t. x = Finite t \<and> 0 \<le> t"
    and "0 \<le> a" and "\<bar>a - A\<bar> \<le> E"
    and "A + sum_list (map value_of xs) + E + of_nat (length xs) / 2 ^ 51 < 8"
  shows "\<exists>s. foldl fadd (Finite a) xs = Finite s \<and> 0 \<le> s
           \<and> \<bar>s - (A + sum_list (map value_of xs))\<bar> \<le> E + of_nat (length xs) / 2 ^ 51"
  using assms
proof (induction xs arbitrary: a A E)
  case Nil
  then show ?case by simp
next
  case (Cons x xs)
  from Cons.prems(1) obtain t where t: "x = Finite t" "0 \<le> t"
    by auto
  have rest: "\<forall>x\<in>set xs. \<exists>t. x = Finite t \<and> 0 \<le> t"
    using Cons.prems(1) by simp
  have nn: "0 \<le> sum_list (map value_of xs)"
  proof (rule sum_list_nonneg)
    fix v assume "v \<in> set (map value_of xs)"
    then obtain y where "y \<in> set xs" "v = value_of y" by auto
    with rest show "0 \<le> v" by auto
  qed
  have len: "(0::rat) \<le> of_nat (length xs) / 2 ^ 51"
    by simp
  have b: "A + t + sum_list (map value_of xs) + E + (of_nat (length xs) + 1) / 2 ^ 51 < 8"
    using Cons.prems(4) t(1) by (simp add: add_divide_distrib algebra_simps)
  have "a \<le> A + E"
    using Cons.prems(3) by (simp add: abs_le_iff)
  with b nn len have "a + t < 8"
    by (simp add: add_divide_distrib)
  with Cons.prems(2) t(2) have "0 \<le> a + t" "a + t < 2 powi 3"
    by simp_all
  from round_double_near [OF this] obtain r where r: "round_double (a + t) = Finite r"
      "0 \<le> r" "r \<le> a + t + 2 powi (3 - 54)" "a + t - 2 powi (3 - 54) \<le> r"
    by auto
  have e: "\<bar>r - (A + t)\<bar> \<le> E + 1 / 2 ^ 51"
    using r(3,4) Cons.prems(3) by (simp add: abs_le_iff)
  have b': "A + t + sum_list (map value_of xs) + (E + 1 / 2 ^ 51) + of_nat (length xs) / 2 ^ 51 < 8"
    using b by (simp add: add_divide_distrib algebra_simps)
  from Cons.IH [OF rest r(2) e b']
  obtain s where s: "foldl fadd (Finite r) xs = Finite s" "0 \<le> s"
      "\<bar>s - (A + t + sum_list (map value_of xs))\<bar> \<le> E + 1 / 2 ^ 51 + of_nat (length xs) / 2 ^ 51"
    by auto
  have "foldl fadd (Finite a) (x # xs) = Finite s"
    using s(1) r(1) t(1) by simp
  moreover have "\<bar>s - (A + sum_list (map value_of (x # xs)))\<bar>
                    \<le> E + of_nat (length (x # xs)) / 2 ^ 51"
    using s(3) t(1) by (simp add: add_divide_distrib algebra_simps)
  ultimately show ?case
    using s(2) by blast
qed

lemma term_value_bounds:
  assumes "1 \<le> n" and "n < 2 ^ 31" and "0 \<le> i" and "i < n"
  shows "\<exists>t. trapezoid_term (fdiv (Finite 1) (double_of_int n)) i = Finite t
           \<and> 0 \<le> t \<and> t \<le> 6 / of_int n"
proof -
  from step_bounds [OF assms(1,2)] obtain h
    where h: "fdiv (Finite 1) (double_of_int n) = Finite h" "0 \<le> h"
      "of_int n * h \<le> 1 + 1 / 2 ^ 22"
    by blast
  have "(of_int n :: rat) < of_int (2 ^ 31)"
    using assms(2) by (simp only: of_int_less_iff)
  then have n: "(0::rat) < of_int n" "(of_int n :: rat) < 2 ^ 31"
    using assms(1) by simp_all
  have "(of_int (i + 1) :: rat) \<le> of_int n"
    using assms(4) by simp
  then have "of_int (i + 1) * h \<le> of_int n * h"
    using h(2) by (intro mult_right_mono) auto
  with h(3) have "of_int (i + 1) * h \<le> 1 + 1 / 2 ^ 22"
    by simp
  from term_bounds [OF h(2) this assms(3)] obtain t
    where t: "trapezoid_term (Finite h) i = Finite t" "0 \<le> t" "t \<le> 5 * h + 1 / 2 ^ 49"
    by blast
  have "of_int n * t \<le> of_int n * (5 * h + 1 / 2 ^ 49)"
    using t(3) n(1) by (intro mult_left_mono) auto
  also have "\<dots> = 5 * (of_int n * h) + of_int n * (1 / 2 ^ 49)"
    by (simp add: algebra_simps)
  also have "\<dots> \<le> 5 * (1 + 1 / 2 ^ 22) + 2 ^ 31 * (1 / 2 ^ 49)"
    using h(3) n by (intro add_mono mult_left_mono mult_right_mono) auto
  also have "\<dots> \<le> 6"
    by simp
  finally have "of_int n * t \<le> 6" .
  then have "t \<le> 6 / of_int n"
    using n(1) by (simp add: pos_le_divide_eq mult.commute)
  with t(1,2) h(1) show ?thesis
    by auto
qed

lemma term_value_sum_bounds:
  assumes "1 \<le> n" and "n < 2 ^ 31" and "0 \<le> a" and "b \<le> n"
  shows "0 \<le> (\<Sum>i\<leftarrow>[a..b - 1]. term_value n i)"
    and "(\<Sum>i\<leftarrow>[a..b - 1]. term_value n i) \<le> 6"
proof -
  have n: "(0::rat) < of_int n"
    using assms(1) by simp
  have tv: "0 \<le> term_value n i \<and> term_value n i \<le> 6 / of_int n" if "i \<in> set [a..b - 1]" for i
  proof -
    from that assms(3,4) have "0 \<le> i" "i < n" by simp_all
    from term_value_bounds [OF assms(1,2) this] show ?thesis
      by (auto simp: term_value_def)
  qed
  show "0 \<le> (\<Sum>i\<leftarrow>[a..b - 1]. term_value n i)"
    by (rule sum_list_nonneg) (use tv in auto)
  have "(\<Sum>i\<leftarrow>[a..b - 1]. term_value n i) \<le> (\<Sum>i\<leftarrow>[a..b - 1]. 6 / of_int n)"
    by (rule sum_list_mono) (use tv in auto)
  also have "\<dots> = of_nat (length [a..b - 1]) * (6 / of_int n)"
    by (simp add: sum_list_triv)
  also have "\<dots> \<le> of_int n * (6 / of_int n)"
  proof (rule mult_right_mono)
    have "int (length [a..b - 1]) \<le> n"
      using assms(1,3,4) by simp
    then have "(of_int (int (length [a..b - 1])) :: rat) \<le> of_int n"
      by (simp only: of_int_le_iff)
    then show "(of_nat (length [a..b - 1]) :: rat) \<le> of_int n"
      by (simp only: of_int_of_nat_eq)
    show "(0::rat) \<le> 6 / of_int n"
      using n by simp
  qed
  also have "\<dots> = 6"
    using n by simp
  finally show "(\<Sum>i\<leftarrow>[a..b - 1]. term_value n i) \<le> 6" .
qed

lemma integrate_error:
  assumes "1 \<le> n" and "n < 2 ^ 31" and "0 \<le> a" and "a \<le> b" and "b \<le> n"
  shows "\<exists>s. integrate a b n = Finite s \<and> 0 \<le> s
           \<and> \<bar>s - (\<Sum>i\<leftarrow>[a..b - 1]. term_value n i)\<bar> \<le> of_int (b - a) / 2 ^ 51"
proof -
  let ?step = "fdiv (Finite 1) (double_of_int n)"
  let ?xs = "map (trapezoid_term ?step) [a..b - 1]"
  have fin: "\<forall>x\<in>set ?xs. \<exists>t. x = Finite t \<and> 0 \<le> t"
  proof
    fix x assume "x \<in> set ?xs"
    then obtain i where i: "x = trapezoid_term ?step i" "a \<le> i" "i \<le> b - 1"
      by auto
    with assms(3,5) have "0 \<le> i" "i < n" by simp_all
    from term_value_bounds [OF assms(1,2) this] i(1) show "\<exists>t. x = Finite t \<and> 0 \<le> t"
      by auto
  qed
  have vs: "map value_of ?xs = map (term_value n) [a..b - 1]"
    by (simp add: term_value_def comp_def)
  have len: "(of_nat (length ?xs) :: rat) = of_int (b - a)"
    using assms(4) by simp
  have "(of_int (b - a) :: rat) \<le> of_int (2 ^ 31)"
    using assms(2,3,5) by simp
  then have "(of_int (b - a) :: rat) / 2 ^ 51 \<le> 1"
    by simp
  with term_value_sum_bounds(2) [OF assms(1,2,3,5)]
  have "0 + sum_list (map value_of ?xs) + 0 + of_nat (length ?xs) / 2 ^ 51 < 8"
    unfolding vs len by linarith
  from foldl_fadd_error [OF fin _ _ this, of 0]
  obtain s where "foldl fadd (Finite 0) ?xs = Finite s" "0 \<le> s"
      "\<bar>s - (0 + sum_list (map value_of ?xs))\<bar> \<le> 0 + of_nat (length ?xs) / 2 ^ 51"
    by auto
  then show ?thesis
    unfolding vs len by (auto simp: integrate_def integrate_loop_foldl foldl_map)
qed

lemma partition_error:
  assumes "1 \<le> n" and "n < 2 ^ 31"
  shows "contiguous_from a cs b \<Longrightarrow> 0 \<le> a \<Longrightarrow> b \<le> n \<Longrightarrow>
     (\<forall>x\<in>set (map (\<lambda>(s, e). integrate s e n) cs). \<exists>t. x = Finite t \<and> 0 \<le> t)
     \<and> \<bar>sum_list (map value_of (map (\<lambda>(s, e). integrate s e n) cs))
          - (\<Sum>i\<leftarrow>[a..b - 1]. term_value n i)\<bar> \<le> of_int (b - a) / 2 ^ 51"
proof (induction cs arbitrary: a)
  case Nil
  then show ?case by simp
next
  case (Cons c cs)
  obtain s e where c: "c = (s, e)" by (cases c)
  from Cons.prems(1) c have s: "s = a" "a \<le> e" and t: "contiguous_from e cs b"
    by simp_all
  have eb: "e \<le> b"
    using t by (rule contiguous_from_le)
  with Cons.prems have e: "0 \<le> e" "e \<le> n"
    using s by simp_all
  from integrate_error [OF assms Cons.prems(2) s(2) e(2)]
  obtain v where v: "integrate a e n = Finite v" "0 \<le> v"
      "\<bar>v - (\<Sum>i\<leftarrow>[a..e - 1]. term_value n i)\<bar> \<le> of_int (e - a) / 2 ^ 51"
    by auto
  from Cons.IH [OF t e(1) Cons.prems(3)]
  have ih: "\<forall>x\<in>set (map (\<lambda>(s, e). integrate s e n) cs). \<exists>t. x = Finite t \<and> 0 \<le> t"
      "\<bar>sum_list (map value_of (map (\<lambda>(s, e). integrate s e n) cs))
          - (\<Sum>i\<leftarrow>[e..b - 1]. term_value n i)\<bar> \<le> of_int (b - e) / 2 ^ 51"
    by simp_all
  have split: "[a..b - 1] = [a..e - 1] @ [e..b - 1]"
  proof (cases "e \<le> b - 1")
    case True
    with s(2) show ?thesis by (rule upto_split1)
  next
    case False
    with eb have "e = b" by simp
    then show ?thesis by simp
  qed
  have "\<bar>(v + sum_list (map value_of (map (\<lambda>(s, e). integrate s e n) cs)))
          - ((\<Sum>i\<leftarrow>[a..e - 1]. term_value n i) + (\<Sum>i\<leftarrow>[e..b - 1]. term_value n i))\<bar>
        \<le> of_int (e - a) / 2 ^ 51 + of_int (b - e) / 2 ^ 51"
    using v(3) ih(2) by linarith
  also have "\<dots> = of_int (b - a) / 2 ^ 51"
    by (simp add: add_divide_distrib [symmetric])
  finally have "\<bar>sum_list (map value_of (map (\<lambda>(s, e). integrate s e n) (c # cs)))
          - (\<Sum>i\<leftarrow>[a..b - 1]. term_value n i)\<bar> \<le> of_int (b - a) / 2 ^ 51"
    unfolding split by (simp add: c s(1) v(1))
  moreover have "\<forall>x\<in>set (map (\<lambda>(s, e). integrate s e n) (c # cs)). \<exists>t. x = Finite t \<and> 0 \<le> t"
    using ih(1) v(1,2) by (simp add: c s(1))
  ultimately show ?case
    by (intro conjI)
qed

lemma worker_partials_are_chunks:
  "map (worker_partial tot n) [0..<nat n] = map (\<lambda>(s, e). integrate s e tot) (chunks tot n)"
  by (rule nth_equalityI) (simp_all add: chunks_length chunks_nth worker_partial_def)

lemma calculatePi_error:
  assumes "1 \<le> n" and "n < 2 ^ 31" and "1 \<le> k" and "k < 2 ^ 31"
    and "complete_schedule k sched"
  shows "\<exists>p. calculatePi sched n k = Inr (Finite p)
           \<and> \<bar>p - (\<Sum>i\<leftarrow>[0..n - 1]. term_value n i)\<bar> \<le> (of_int n + of_int k) / 2 ^ 51"
proof -
  let ?rs = "map (\<lambda>(s, e). integrate s e n) (chunks n k)"
  let ?X = "\<Sum>i\<leftarrow>[0..n - 1]. term_value n i"
  have c: "contiguous_from 0 (chunks n k) n"
    using assms(1,3) by (intro chunks_contiguous) auto
  from partition_error [OF assms(1,2) c]
  have fin: "\<forall>x\<in>set ?rs. \<exists>t. x = Finite t \<and> 0 \<le> t"
    and err: "\<bar>sum_list (map value_of ?rs) - ?X\<bar> \<le> of_int n / 2 ^ 51"
    by simp_all
  have "(of_int n :: rat) \<le> of_int (2 ^ 31)" "(of_int k :: rat) \<le> of_int (2 ^ 31)"
    using assms(2,4) by (simp_all only: of_int_le_iff)
  then have small: "(of_int n :: rat) / 2 ^ 51 \<le> 1 / 2" "(of_int k :: rat) / 2 ^ 51 \<le> 1 / 2"
    by simp_all
  have len: "(of_nat (length ?rs) :: rat) = of_int k"
    using assms(3) by (simp add: chunks_length)
  have "?X \<le> 6"
    using term_value_sum_bounds(2) [OF assms(1,2), of 0 n] by simp
  with err small have "0 + sum_list (map value_of ?rs) + 0 + of_nat (length ?rs) / 2 ^ 51 < 8"
    unfolding len by linarith
  from foldl_fadd_error [OF fin _ _ this, of 0]
  obtain p where p: "foldl fadd (Finite 0) ?rs = Finite p"
      "\<bar>p - (0 + sum_list (map value_of ?rs))\<bar> \<le> 0 + of_nat (length ?rs) / 2 ^ 51"
    by auto
  have "\<bar>p - ?X\<bar> \<le> of_int k / 2 ^ 51 + of_int n / 2 ^ 51"
    using p(2) err unfolding len by linarith
  then have "\<bar>p - ?X\<bar> \<le> (of_int n + of_int k) / 2 ^ 51"
    by (simp add: add_divide_distrib)
  moreover have "calculatePi sched n k = Inr (Finite p)"
    using calculatePi_complete [OF assms(3,5), of n] p(1)
    by (simp add: worker_partials_are_chunks)
  ultimately show ?thesis
    by blast
qed

text \<open>
  C5, amended: for \<open>0 < total_intervals < 2^31\<close> the values returned for two thread
  counts in \<open>[1, 50]\<close> are finite and differ by at most \<open>(total_intervals + 50) / 2^50\<close>.
  Each is within \<open>(total_intervals + num_threads) / 2^51\<close> of the exact sum of the
  per-interval terms, which are computed in the same way whatever the thread count;
  only the roundings of the additions depend on the decomposition.
\<close>

theorem calculatePi_agrees_up_to_rounding:
  assumes "0 < total_intervals" and "total_intervals < 2 ^ 31"
    and "1 \<le> num_threads" and "num_threads \<le> 50"
    and "1 \<le> num_threads'" and "num_threads' \<le> 50"
    and "complete_schedule num_threads sched" and "complete_schedule num_threads' sched'"
  shows "\<exists>p p'. calculatePi sched total_intervals num_threads = Inr (Finite p)
           \<and> calculatePi sched' total_intervals num_threads' = Inr (Finite p')
           \<and> \<bar>p - p'\<bar> \<le> (of_int total_intervals + 50) / 2 ^ 50"
proof -
  let ?X = "\<Sum>i\<leftarrow>[0..total_intervals - 1]. term_value total_intervals i"
  have n: "1 \<le> total_intervals"
    using assms(1) by simp
  have k: "num_threads < 2 ^ 31" "num_threads' < 2 ^ 31"
    using assms(4,6) by simp_all
  from calculatePi_error [OF n assms(2,3) k(1) assms(7)]
  obtain p where p: "calculatePi sched total_intervals num_threads = Inr (Finite p)"
      "\<bar>p - ?X\<bar> \<le> (of_int total_intervals + of_int num_threads) / 2 ^ 51"
    by blast
  from calculatePi_error [OF n assms(2,5) k(2) assms(8)]
  obtain p' where p': "calculatePi sched' total_intervals num_threads' = Inr (Finite p')"
      "\<bar>p' - ?X\<bar> \<le> (of_int total_intervals + of_int num_threads') / 2 ^ 51"
    by blast
  have "(of_int num_threads :: rat) \<le> 50" "(of_int num_threads' :: rat) \<le> 50"
    using assms(4,6) by simp_all
  then have "(of_int total_intervals + of_int num_threads) / 2 ^ 51
               \<le> (of_int total_intervals + (50::rat)) / 2 ^ 51"
    "(of_int total_intervals + of_int num_threads') / 2 ^ 51
               \<le> (of_int total_intervals + (50::rat)) / 2 ^ 51"
    by (simp_all add: divide_right_mono)
  with p(2) p'(2) have "\<bar>p - p'\<bar> \<le> (of_int total_intervals + 50) / 2 ^ 51
                          + (of_int total_intervals + 50) / 2 ^ 51"
    by linarith
  also have "\<dots> = (of_int total_intervals + 50) / 2 ^ 50"
    by simp
  finally show ?thesis
    using p(1) p'(1) by blast
qed

theorem calculatePi_agrees_up_to_rounding_witness:
  "\<exists>p p'. calculatePi [0] 4 1 = Inr (Finite p) \<and> calculatePi [1, 0] 4 2 = Inr (Finite p')
     \<and> \<bar>p - p'\<bar> \<le> (of_int 4 + 50) / 2 ^ 50"
proof -
  have "[0..<nat 2] = [0, 1]"
    by (simp add: numeral_eq_Suc upt_rec)
  then have "complete_schedule 1 [0]" "complete_schedule 2 [1, 0]"
    by (simp_all add: complete_schedule_def)
  then show ?thesis
    by (intro calculatePi_agrees_up_to_rounding) simp_all
qed

text \<open>
  C6, amended: for \<open>0 < total_intervals < 2^31\<close> and every partition of
  \<open>[0, total_intervals)\<close> into contiguous chunks, \<open>integrate(0, total_intervals,
  total_intervals)\<close> and all the chunk values are finite, and the single-chunk value
  differs from the exact sum of the chunk values by at most \<open>total_intervals / 2^50\<close>.
\<close>

theorem integrate_additive_up_to_rounding:
  assumes "0 < total_intervals" and "total_intervals < 2 ^ 31"
    and "contiguous_from 0 cs total_intervals"
  shows "is_finite (integrate 0 total_intervals total_intervals)
    \<and> (\<forall>c\<in>set cs. is_finite (integrate (fst c) (snd c) total_intervals))
    \<and> \<bar>value_of (integrate 0 total_intervals total_intervals)
         - (\<Sum>c\<leftarrow>cs. value_of (integrate (fst c) (snd c) total_intervals))\<bar>
        \<le> of_int total_intervals / 2 ^ 50"
proof -
  let ?n = total_intervals
  let ?X = "\<Sum>i\<leftarrow>[0..?n - 1]. term_value ?n i"
  have n: "1 \<le> ?n"
    using assms(1) by simp
  from integrate_error [OF n assms(2), of 0 ?n]
  obtain s where s: "integrate 0 ?n ?n = Finite s" "\<bar>s - ?X\<bar> \<le> of_int ?n / 2 ^ 51"
    using n by auto
  from partition_error [OF n assms(2,3)]
  have fin: "\<forall>x\<in>set (map (\<lambda>(s, e). integrate s e ?n) cs). \<exists>t. x = Finite t \<and> 0 \<le> t"
    and err: "\<bar>sum_list (map value_of (map (\<lambda>(s, e). integrate s e ?n) cs)) - ?X\<bar>
                \<le> of_int ?n / 2 ^ 51"
    by simp_all
  have m: "map value_of (map (\<lambda>(s, e). integrate s e ?n) cs)
             = map (\<lambda>c. value_of (integrate (fst c) (snd c) ?n)) cs"
    by (simp add: case_prod_unfold comp_def)
  have "\<forall>c\<in>set cs. is_finite (integrate (fst c) (snd c) ?n)"
  proof
    fix c assume "c \<in> set cs"
    then have "integrate (fst c) (snd c) ?n \<in> set (map (\<lambda>(s, e). integrate s e ?n) cs)"
      by (force simp: case_prod_unfold)
    with fin show "is_finite (integrate (fst c) (snd c) ?n)"
      by auto
  qed
  moreover have "\<bar>s - (\<Sum>c\<leftarrow>cs. value_of (integrate (fst c) (snd c) ?n))\<bar>
                   \<le> of_int ?n / 2 ^ 51 + of_int ?n / 2 ^ 51"
    using s(2) err unfolding m by linarith
  then have "\<bar>s - (\<Sum>c\<leftarrow>cs. value_of (integrate (fst c) (snd c) ?n))\<bar> \<le> of_int ?n / 2 ^ 50"
    by simp
  ultimately show ?thesis
    by (simp add: s(1))
qed

theorem integrate_additive_up_to_rounding_witness:
  "is_finite (integrate 0 4 4)
   \<and> \<bar>value_of (integrate 0 4 4) - (value_of (integrate 0 2 4) + value_of (integrate 2 4 4))\<bar>
       \<le> of_int 4 / 2 ^ 50"
proof -
  have "(0::int) < 4" "(4::int) < 2 ^ 31" "contiguous_from 0 [(0, 2), (2, 4)] 4"
    by simp_all
  from integrate_additive_up_to_rounding [OF this] show ?thesis
    by simp
qed

end
